theory Spec2Isabelle
  imports Complex_Main "HOL-Library.Word"
begin

unbundle bit_operations_syntax

section \<open>Byte buffers and the helpers of parse_base\<close>

text \<open>
  A \<open>Uint8Array\<close> is a list of bytes. The module \<open>parse_base\<close> (readDWord, readWord,
  readByte, readString, subBuffer, makeDWordArray, makeStringArray), the checksum module
  \<open>crc32\<close>, the class \<open>Animation\<close> and the constant \<open>support.PNG_SIGNATURE_BYTES\<close> are
  imported by \<open>parse_apng.ts\<close> from other modules; they are modelled from the
  specification.
\<close>

type_synonym byte = "8 word"
type_synonym bytes = "byte list"

text \<open>
  Modelled from the spec: element access for the readers of \<open>parse_base\<close>. An index past
  the end of a typed array yields \<open>undefined\<close> in JavaScript and no error; the readers are
  total and a missing byte counts as 0.
\<close>

definition byteAt :: "bytes \<Rightarrow> nat \<Rightarrow> byte" where
  "byteAt bytes i = (if i < length bytes then bytes ! i else 0)"

text \<open>Modelled from the spec: \<open>readDWord\<close> of \<open>parse_base\<close>, a big-endian unsigned 32-bit field.\<close>

definition readDWord :: "bytes \<Rightarrow> nat \<Rightarrow> nat" where
  "readDWord bytes off =
     unat (byteAt bytes off) * 2 ^ 24 + unat (byteAt bytes (off + 1)) * 2 ^ 16 +
     unat (byteAt bytes (off + 2)) * 2 ^ 8 + unat (byteAt bytes (off + 3))"

text \<open>Modelled from the spec: \<open>readWord\<close> of \<open>parse_base\<close>, a big-endian unsigned 16-bit field.\<close>

definition readWord :: "bytes \<Rightarrow> nat \<Rightarrow> nat" where
  "readWord bytes off = unat (byteAt bytes off) * 2 ^ 8 + unat (byteAt bytes (off + 1))"

text \<open>Modelled from the spec: \<open>readByte\<close> of \<open>parse_base\<close>, a single byte.\<close>

definition readByte :: "bytes \<Rightarrow> nat \<Rightarrow> nat" where
  "readByte bytes off = unat (byteAt bytes off)"

definition fromCharCode :: "byte \<Rightarrow> char" where
  "fromCharCode b = char_of (unat b)"

definition charCodeAt :: "char \<Rightarrow> byte" where
  "charCodeAt c = of_char c"

text \<open>
  Modelled from the spec: \<open>readString\<close> of \<open>parse_base\<close>, the bytes of a range read as
  characters (a range that leaves the buffer yields the characters that are there).
\<close>

definition readString :: "bytes \<Rightarrow> nat \<Rightarrow> nat \<Rightarrow> string" where
  "readString bytes off len = map fromCharCode (take len (drop off bytes))"

text \<open>Modelled from the spec: \<open>subBuffer\<close> of \<open>parse_base\<close>, a copy of a raw byte range.\<close>

definition subBuffer :: "bytes \<Rightarrow> nat \<Rightarrow> nat \<Rightarrow> bytes" where
  "subBuffer bytes start len = take len (drop start bytes)"

text \<open>Modelled from the spec: \<open>makeDWordArray\<close> of \<open>parse_base\<close>, the four big-endian bytes of a number.\<close>

definition makeDWordArray :: "nat \<Rightarrow> bytes" where
  "makeDWordArray x =
     [of_nat (x div 2 ^ 24), of_nat (x div 2 ^ 16), of_nat (x div 2 ^ 8), of_nat x]"

text \<open>Modelled from the spec: \<open>makeStringArray\<close> of \<open>parse_base\<close>, the character codes of a tag.\<close>

definition makeStringArray :: "string \<Rightarrow> bytes" where
  "makeStringArray x = map charCodeAt x"

text \<open>Modelled from the spec: \<open>support.PNG_SIGNATURE_BYTES\<close>, the 8-byte PNG signature.\<close>

definition PNG_SIGNATURE_BYTES :: bytes where
  "PNG_SIGNATURE_BYTES = [137, 80, 78, 71, 13, 10, 26, 10]"

subsection \<open>The Checksum Unit\<close>

text \<open>
  Modelled from the spec: \<open>crc32\<close>, the CRC-32 of the IEEE 802.3 polynomial over the
  bytes of the range that starts at \<open>start\<close> and has \<open>len\<close> bytes. The bitwise formulation
  computes the same function as the table-driven one.
\<close>

definition crc_shift :: "32 word \<Rightarrow> 32 word" where
  "crc_shift c = (if bit c 0 then drop_bit 1 c XOR 0xEDB88320 else drop_bit 1 c)"

definition crc_update :: "32 word \<Rightarrow> byte \<Rightarrow> 32 word" where
  "crc_update c b = (crc_shift ^^ 8) (c XOR ucast b)"

definition crc32 :: "bytes \<Rightarrow> nat \<Rightarrow> nat \<Rightarrow> nat" where
  "crc32 bytes start len =
     unat (foldl crc_update 0xFFFFFFFF (take len (drop start bytes)) XOR 0xFFFFFFFF)"

subsection \<open>Typed-array views and \<open>set\<close>\<close>

datatype js_error = TypeError | RangeError

text \<open>
  \<open>bytes.subarray(begin, end)\<close> is a view of the same buffer, not a copy: it is kept as
  the pair of its byte offset and its length, both clamped to the buffer as JavaScript
  does, and its contents are read from the buffer when they are used.
\<close>

type_synonym view = "nat \<times> nat"

definition subarray :: "bytes \<Rightarrow> nat \<Rightarrow> nat \<Rightarrow> view" where
  "subarray bytes begin end =
     (let b = min begin (length bytes); e = min end (length bytes) in (b, e - b))"

definition view_bytes :: "bytes \<Rightarrow> view \<Rightarrow> bytes" where
  "view_bytes buf v = take (snd v) (drop (fst v) buf)"

text \<open>
  \<open>target.set(source, offset)\<close> on a typed array throws a RangeError when the source
  does not fit, and overwrites the target in place otherwise.
\<close>

definition typed_set :: "bytes \<Rightarrow> bytes \<Rightarrow> nat \<Rightarrow> js_error + bytes" where
  "typed_set target source offset =
     (if length target < offset + length source then Inl RangeError
      else Inr (take offset target @ source @ drop (offset + length source) target))"

text \<open>The same on a view: the bytes written are bytes of the underlying buffer.\<close>

definition view_set :: "bytes \<Rightarrow> view \<Rightarrow> bytes \<Rightarrow> nat \<Rightarrow> js_error + bytes" where
  "view_set buf v source offset =
     (if snd v < offset + length source then Inl RangeError
      else Inr (take (fst v + offset) buf @ source @
                drop (fst v + offset + length source) buf))"

definition bindE :: "'e + 'a \<Rightarrow> ('a \<Rightarrow> 'e + 'b) \<Rightarrow> 'e + 'b" where
  "bindE m f = (case m of Inl e \<Rightarrow> Inl e | Inr x \<Rightarrow> f x)"

fun mapE :: "('a \<Rightarrow> 'e + 'b) \<Rightarrow> 'a list \<Rightarrow> 'e + 'b list" where
  "mapE f [] = Inr []"
| "mapE f (x # xs) = bindE (f x) (\<lambda>y. bindE (mapE f xs) (\<lambda>ys. Inr (y # ys)))"

section \<open>The chunk walker\<close>

text \<open>
  The visitor of \<open>parseChunks\<close> is a closure that updates variables of its environment;
  here it takes the state of these variables and returns it with its boolean result.
\<close>

type_synonym 's ParseCallback = "string \<Rightarrow> bytes \<Rightarrow> nat \<Rightarrow> nat \<Rightarrow> 's \<Rightarrow> bool \<times> 's"

text \<open>
  The do-while loop of \<open>parseChunks\<close>, from the offset \<open>off\<close>: the body runs before the
  condition is tested. The result is the offset at which the loop stops and the
  visitor's state.
\<close>

function parseChunks_loop :: "bytes \<Rightarrow> 's ParseCallback \<Rightarrow> nat \<Rightarrow> 's \<Rightarrow> nat \<times> 's" where
  "parseChunks_loop bytes callback off s =
     (let len = readDWord bytes off;
          type = readString bytes (off + 4) 4;
          (res, s') = callback type bytes off len s;
          off' = off + (12 + len)
      in if res \<and> type \<noteq> ''IEND'' \<and> off' < length bytes
         then parseChunks_loop bytes callback off' s'
         else (off', s'))"
  by pat_completeness auto
termination
  by (relation "measure (\<lambda>(bytes, callback, off, s). length bytes - off)") auto

definition parseChunks :: "bytes \<Rightarrow> 's ParseCallback \<Rightarrow> 's \<Rightarrow> 's" where
  "parseChunks bytes callback s = snd (parseChunks_loop bytes callback 8 s)"






text \<open>
  To speak about the calls the walker makes, a visitor is wrapped into one that
  behaves as it does and also appends each call (its four arguments and its result) to
  a log.
\<close>

record Visit =
  v_type :: string
  v_bytes :: bytes
  v_off :: nat
  v_len :: nat
  v_res :: bool

definition logged :: "'s ParseCallback \<Rightarrow> ('s \<times> Visit list) ParseCallback" where
  "logged callback type bytes off len sl =
     (let (res, s') = callback type bytes off len (fst sl)
      in (res, (s', snd sl @
            [\<lparr>v_type = type, v_bytes = bytes, v_off = off, v_len = len, v_res = res\<rparr>])))"

definition visits_from :: "bytes \<Rightarrow> 's ParseCallback \<Rightarrow> nat \<Rightarrow> 's \<Rightarrow> Visit list" where
  "visits_from bytes callback off s =
     snd (snd (parseChunks_loop bytes (logged callback) off (s, [])))"

definition visits :: "bytes \<Rightarrow> 's ParseCallback \<Rightarrow> 's \<Rightarrow> Visit list" where
  "visits bytes callback s = snd (parseChunks bytes (logged callback) (s, []))"

text \<open>The state a visitor reaches when it is called on the chunks of a log, in order.\<close>

definition replay :: "'s ParseCallback \<Rightarrow> 's \<Rightarrow> Visit list \<Rightarrow> 's" where
  "replay callback s vs =
     foldl (\<lambda>st v. snd (callback (v_type v) (v_bytes v) (v_off v) (v_len v) st)) s vs"

text \<open>
  The walk as the specification words it, as a property of a log of calls: the first
  call is at \<open>off\<close>; each call is made with the tag and the declared length read at its
  offset, on the state the previous calls left, and its result is what the visitor
  returned; the next call is \<open>12 + length\<close> further; and the log ends exactly at the
  first call after which the visitor said stop, the tag was the terminator, or the
  advanced offset reached the end of the buffer.
\<close>

fun chunk_walk :: "bytes \<Rightarrow> 's ParseCallback \<Rightarrow> nat \<Rightarrow> 's \<Rightarrow> Visit list \<Rightarrow> bool" where
  "chunk_walk bytes callback off s [] = False"
| "chunk_walk bytes callback off s (v # vs) =
     (v_off v = off \<and> v_bytes v = bytes \<and>
      v_type v = readString bytes (off + 4) 4 \<and> v_len v = readDWord bytes off \<and>
      v_res v = fst (callback (v_type v) bytes off (v_len v) s) \<and>
      (if v_res v \<and> v_type v \<noteq> ''IEND'' \<and> off + 12 + v_len v < length bytes
       then chunk_walk bytes callback (off + 12 + v_len v)
              (snd (callback (v_type v) bytes off (v_len v) s)) vs
       else vs = []))"

section \<open>JavaScript numbers\<close>

text \<open>
  The delay of a frame and the play time of the animation are JavaScript numbers, that
  is IEEE 754 double-precision values. A finite double is a rational number, and an
  arithmetic operation yields the exact result rounded to the nearest double, ties to
  the even significand. The function \<open>to_double\<close> is this rounding for the normal
  range, where a double has 53 significant bits. The numbers that the parser computes
  stay in this range: a delay is 0 or lies between \<open>1000 / 65535\<close> and \<open>65535000\<close>, and
  the play time is a sum of at most as many delays as the buffer has chunks. Offsets,
  lengths and the integer fields of chunks are below \<open>2 ^ 53\<close>, where the arithmetic of
  doubles is exact; they are natural numbers here.
\<close>

text \<open>The number of binary digits of a natural number.\<close>

fun bit_length :: "nat \<Rightarrow> nat" where
  "bit_length n = (if n = 0 then 0 else Suc (bit_length (n div 2)))"

text \<open>The binary exponent of a positive number \<open>x\<close>: the \<open>e\<close> with \<open>2 ^ e \<le> x < 2 ^ (e + 1)\<close>.\<close>

definition exponent :: "rat \<Rightarrow> int" where
  "exponent x =
     (if 1 \<le> x then int (bit_length (nat \<lfloor>x\<rfloor>)) - 1
      else - int (bit_length (nat (\<lceil>1 / x\<rceil> - 1))))"

definition round_half_even :: "rat \<Rightarrow> int" where
  "round_half_even x =
     (let f = \<lfloor>x\<rfloor>; r = x - of_int f
      in if r < 1 / 2 then f else if 1 / 2 < r then f + 1 else if even f then f else f + 1)"

definition to_double :: "rat \<Rightarrow> rat" where
  "to_double x =
     (if x = 0 then 0
      else let e = exponent \<bar>x\<bar>
           in if 52 \<le> e
              then sgn x * of_int (round_half_even (\<bar>x\<bar> / 2 ^ nat (e - 52))) * 2 ^ nat (e - 52)
              else sgn x * of_int (round_half_even (\<bar>x\<bar> * 2 ^ nat (52 - e))) / 2 ^ nat (52 - e))"

text \<open>The operators \<open>*\<close>, \<open>/\<close> and \<open>+\<close> on doubles; no divisor of the parser is 0.\<close>

definition js_mul :: "rat \<Rightarrow> rat \<Rightarrow> rat" where
  "js_mul a b = to_double (a * b)"

definition js_div :: "rat \<Rightarrow> rat \<Rightarrow> rat" where
  "js_div a b = to_double (a / b)"

definition js_add :: "rat \<Rightarrow> rat \<Rightarrow> rat" where
  "js_add a b = to_double (a + b)"

section \<open>The Animation Builder\<close>

text \<open>
  Modelled from the spec: the classes \<open>Frame\<close> and \<open>Animation\<close> of \<open>utils/animation\<close>.
  The data parts of a frame are views of the input buffer. The decoded image of a
  frame belongs to the browser and is not part of the record.
\<close>

record Frame =
  width :: nat
  height :: nat
  left :: nat
  top :: nat
  delay :: rat
  disposeOp :: nat
  blendOp :: nat
  dataParts :: "view list"

record Animation =
  width :: nat
  height :: nat
  numPlays :: nat
  playTime :: rat
  frames :: "Frame list"

text \<open>Modelled from the spec: a new \<open>Animation\<close> is empty.\<close>

definition new_Animation :: Animation where
  "new_Animation =
     \<lparr>Animation.width = 0, height = 0, numPlays = 0, playTime = 0, frames = []\<rparr>"

text \<open>The variables that the visitor of the extraction pass updates.\<close>

record ParseState =
  anim :: Animation
  headerDataBytes :: "view option"
  frame :: "Frame option"
  preDataParts :: "bytes list"
  postDataParts :: "bytes list"

definition initState :: ParseState where
  "initState = \<lparr>anim = new_Animation, headerDataBytes = None, frame = None,
                 preDataParts = [], postDataParts = []\<rparr>"

text \<open>\<open>if (frame) anim.frames.push(frame)\<close>\<close>

definition pushFrame :: "Frame option \<Rightarrow> Animation \<Rightarrow> Animation" where
  "pushFrame fr a = (case fr of None \<Rightarrow> a | Some f \<Rightarrow> a\<lparr>frames := frames a @ [f]\<rparr>)"

text \<open>The visitor of the fast animation test; its state is the flag \<open>isAnimated\<close>.\<close>

definition scanVisitor :: "bool ParseCallback" where
  "scanVisitor type bytes off len isAnimated =
     (if type = ''acTL'' then (False, True) else (True, isAnimated))"

text \<open>The visitor of the extraction pass, one branch for each case of its switch.\<close>

definition extractVisitor :: "ParseState ParseCallback" where
  "extractVisitor type bytes off len st =
     (if type = ''IHDR'' then
        (True, st\<lparr>headerDataBytes := Some (subarray bytes (off + 8) (off + 8 + len)),
                  anim := (anim st)\<lparr>Animation.width := readDWord bytes (off + 8),
                                    Animation.height := readDWord bytes (off + 12)\<rparr>\<rparr>)
      else if type = ''acTL'' then
        (True, st\<lparr>anim := (anim st)\<lparr>numPlays := readDWord bytes (off + 8 + 4)\<rparr>\<rparr>)
      else if type = ''fcTL'' then
        (let a = pushFrame (frame st) (anim st);
             delayN = readWord bytes (off + 8 + 20);
             delayD0 = readWord bytes (off + 8 + 22);
             delayD = (if delayD0 = 0 then 100 else delayD0);
             delay0 = js_div (js_mul 1000 (rat_of_nat delayN)) (rat_of_nat delayD);
             delay1 = (if delay0 \<le> 10 then 100 else delay0)
         in (True, st\<lparr>anim := a\<lparr>playTime := js_add (playTime a) delay1\<rparr>,
                      frame := Some \<lparr>Frame.width = readDWord bytes (off + 8 + 4),
                                     height = readDWord bytes (off + 8 + 8),
                                     left = readDWord bytes (off + 8 + 12),
                                     top = readDWord bytes (off + 8 + 16),
                                     delay = delay1,
                                     disposeOp = readByte bytes (off + 8 + 24),
                                     blendOp = readByte bytes (off + 8 + 25),
                                     dataParts = []\<rparr>\<rparr>))
      else if type = ''fdAT'' then
        (case frame st of
           Some f \<Rightarrow>
             (True, st\<lparr>frame := Some (f\<lparr>dataParts := dataParts f @
                                 [subarray bytes (off + 8 + 4) (off + 8 + len)]\<rparr>)\<rparr>)
         | None \<Rightarrow> (True, st))
      else if type = ''IDAT'' then
        (case frame st of
           Some f \<Rightarrow>
             (True, st\<lparr>frame := Some (f\<lparr>dataParts := dataParts f @
                                 [subarray bytes (off + 8) (off + 8 + len)]\<rparr>)\<rparr>)
         | None \<Rightarrow>
             (True, st\<lparr>anim := (anim st)\<lparr>playTime := js_add (playTime (anim st)) 100\<rparr>,
                       frame := Some \<lparr>Frame.width = Animation.width (anim st),
                                      height = Animation.height (anim st),
                                      left = 0, top = 0, delay = 100,
                                      disposeOp = 1, blendOp = 1,
                                      dataParts = [subarray bytes (off + 8) (off + 8 + len)]\<rparr>\<rparr>))
      else if type = ''IEND'' then
        (True, st\<lparr>postDataParts := postDataParts st @ [subBuffer bytes off (12 + len)]\<rparr>)
      else
        (True, st\<lparr>preDataParts := preDataParts st @ [subBuffer bytes off (12 + len)]\<rparr>))"

text \<open>The two passes over the buffer.\<close>

definition isAnimated :: "bytes \<Rightarrow> bool" where
  "isAnimated bytes = parseChunks bytes scanVisitor False"

definition extractPass :: "bytes \<Rightarrow> ParseState" where
  "extractPass bytes = parseChunks bytes extractVisitor initState"

text \<open>The animation after the end-of-pass \<open>if (frame) anim.frames.push(frame)\<close>.\<close>

definition extracted :: "bytes \<Rightarrow> Animation" where
  "extracted bytes = (let st = extractPass bytes in pushFrame (frame st) (anim st))"

text \<open>
  The play-count policy that follows the extraction pass; when it is reached
  \<open>ignoreSingle\<close> has not rejected the frame count.
\<close>

definition playPolicy :: "bool \<Rightarrow> Animation \<Rightarrow> Animation" where
  "playPolicy forceLoop a =
     (if length (frames a) \<le> 1 then a\<lparr>numPlays := 1\<rparr>
      else if forceLoop then a\<lparr>numPlays := 0\<rparr> else a)"

section \<open>The Frame Synthesizer\<close>

definition makeChunkBytes :: "string \<Rightarrow> bytes \<Rightarrow> js_error + bytes" where
  "makeChunkBytes type dataBytes =
     (let crcLen = length type + length dataBytes;
          bytes0 = replicate (crcLen + 8) 0
      in bindE (typed_set bytes0 (makeDWordArray (length dataBytes)) 0) (\<lambda>bytes1.
         bindE (typed_set bytes1 (makeStringArray type) 4) (\<lambda>bytes2.
         bindE (typed_set bytes2 dataBytes 8) (\<lambda>bytes3.
         let crc = crc32 bytes3 4 crcLen
         in typed_set bytes3 (makeDWordArray crc) (crcLen + 4)))))"

text \<open>
  One round of the loop that creates the images, up to the byte stream handed to
  \<open>URL.createObjectURL\<close>. The header template is a view of the input buffer, so the
  round takes the buffer and returns it as the two \<open>set\<close> calls leave it, along with the
  stream or the error thrown. An undefined template makes the first \<open>set\<close> a TypeError.
\<close>

definition synthFrame ::
  "view option \<Rightarrow> bytes list \<Rightarrow> bytes list \<Rightarrow> bytes \<Rightarrow> Frame \<Rightarrow> (js_error + bytes) \<times> bytes" where
  "synthFrame hdr pre post buf fr =
     (case hdr of
        None \<Rightarrow> (Inl TypeError, buf)
      | Some h \<Rightarrow>
          (case view_set buf h (makeDWordArray (Frame.width fr)) 0 of
             Inl e \<Rightarrow> (Inl e, buf)
           | Inr buf1 \<Rightarrow>
               (case view_set buf1 h (makeDWordArray (Frame.height fr)) 4 of
                  Inl e \<Rightarrow> (Inl e, buf1)
                | Inr buf2 \<Rightarrow>
                    (bindE (makeChunkBytes ''IHDR'' (view_bytes buf2 h)) (\<lambda>ihdr.
                     bindE (mapE (\<lambda>p. makeChunkBytes ''IDAT'' (view_bytes buf2 p)) (dataParts fr))
                       (\<lambda>idats.
                     Inr (PNG_SIGNATURE_BYTES @ ihdr @ concat pre @ concat idats @ concat post))),
                     buf2))))"

text \<open>
  The loop over \<open>anim.frames\<close>. Each completed round yields a stream, installs the load
  and error handlers of one image, and releases the frame's data parts (\<open>delete
  frame.dataParts\<close>, here the empty list). The loop ends at the first error thrown. The
  result is the frames as the loop leaves them, the streams, the buffer and the error.
\<close>

fun synthFrames ::
  "view option \<Rightarrow> bytes list \<Rightarrow> bytes list \<Rightarrow> bytes \<Rightarrow> Frame list \<Rightarrow>
     Frame list \<times> bytes list \<times> bytes \<times> js_error option" where
  "synthFrames hdr pre post buf [] = ([], [], buf, None)"
| "synthFrames hdr pre post buf (fr # frs) =
     (case synthFrame hdr pre post buf fr of
        (Inl e, buf') \<Rightarrow> (fr # frs, [], buf', Some e)
      | (Inr stream, buf') \<Rightarrow>
          (case synthFrames hdr pre post buf' frs of
             (frs', streams, buf'', err) \<Rightarrow>
               (fr\<lparr>dataParts := []\<rparr> # frs', stream # streams, buf'', err)))"

section \<open>The parse operation and its promise\<close>

datatype reason = Message string | Exception js_error

datatype promise = Pending | Fulfilled Animation | Rejected reason

text \<open>
  What the executor of the promise leaves behind when it returns: the state of the
  promise, the animation that the image handlers refer to, the streams handed to
  images, the number of images whose load or error event is still to come, the
  counter \<open>createdImages\<close>, and the caller's buffer.
\<close>

record Run =
  settled :: promise
  animation :: Animation
  streams :: "bytes list"
  loading :: nat
  createdImages :: nat
  buffer :: bytes

definition rejectNotAnimated :: "Animation \<Rightarrow> bytes \<Rightarrow> Run" where
  "rejectNotAnimated a bytes =
     \<lparr>settled = Rejected (Message ''Not an animated PNG''), animation = a,
      streams = [], loading = 0, createdImages = 0, buffer = bytes\<rparr>"

text \<open>The exported function, up to the return of the promise's executor.\<close>

definition parseAPNG :: "bytes \<Rightarrow> bool \<Rightarrow> bool \<Rightarrow> Run" where
  "parseAPNG bytes ignoreSingle forceLoop =
     (if \<not> isAnimated bytes \<and> ignoreSingle then rejectNotAnimated new_Animation bytes
      else
        let st = extractPass bytes;
            a = pushFrame (frame st) (anim st)
        in if length (frames a) \<le> 1 \<and> ignoreSingle then rejectNotAnimated a bytes
           else
             let a' = playPolicy forceLoop a
             in (case synthFrames (headerDataBytes st) (preDataParts st) (postDataParts st)
                        bytes (frames a') of
                   (frs, ss, buf, err) \<Rightarrow>
                     \<lparr>settled = (case err of None \<Rightarrow> Pending
                                            | Some e \<Rightarrow> Rejected (Exception e)),
                      animation = a'\<lparr>frames := frs\<rparr>,
                      streams = ss, loading = length ss, createdImages = 0,
                      buffer = buf\<rparr>))"

text \<open>
  After the executor has returned, the promise changes only in the handlers of the
  images: \<open>onload\<close> counts the image and resolves when the count reaches the number of
  frames, \<open>onerror\<close> rejects. Settling a settled promise has no effect.
\<close>

definition settle :: "promise \<Rightarrow> promise \<Rightarrow> promise" where
  "settle p new = (if p = Pending then new else p)"

inductive img_event :: "Run \<Rightarrow> Run \<Rightarrow> bool" where
  onload:
    "0 < loading r \<Longrightarrow>
     img_event r (r\<lparr>loading := loading r - 1, createdImages := createdImages r + 1,
                    settled := (if createdImages r + 1 = length (frames (animation r))
                                then settle (settled r) (Fulfilled (animation r))
                                else settled r)\<rparr>)"
| onerror:
    "0 < loading r \<Longrightarrow>
     img_event r (r\<lparr>loading := loading r - 1,
                    settled := settle (settled r) (Rejected (Message ''Image creation error''))\<rparr>)"

inductive reaches :: "Run \<Rightarrow> Run \<Rightarrow> bool" where
  start: "reaches r r"
| later: "reaches r r' \<Longrightarrow> img_event r' r'' \<Longrightarrow> reaches r r''"

section \<open>The synthesized stream as the specification words it\<close>

text \<open>
  Chunk wrapping: the big-endian length of the payload, the 4-character tag, the
  payload, and the big-endian checksum of tag and payload.
\<close>

definition chunk_layout :: "string \<Rightarrow> bytes \<Rightarrow> bytes" where
  "chunk_layout type payload =
     makeDWordArray (length payload) @ makeStringArray type @ payload @
     makeDWordArray (crc32 (makeStringArray type @ payload) 0 (length type + length payload))"

text \<open>
  The stream of a frame: the signature; a header chunk whose payload is the template
  with its width and height fields (the first 8 bytes) replaced by those of the
  frame; the prologue group; one \<open>IDAT\<close> chunk for each data part of the frame, read
  from the input buffer; the epilogue group.
\<close>

definition frame_stream :: "bytes \<Rightarrow> bytes list \<Rightarrow> bytes list \<Rightarrow> bytes \<Rightarrow> Frame \<Rightarrow> bytes" where
  "frame_stream template prologue epilogue bytes fr =
     PNG_SIGNATURE_BYTES @
     chunk_layout ''IHDR''
       (makeDWordArray (Frame.width fr) @ makeDWordArray (Frame.height fr) @ drop 8 template) @
     concat prologue @
     concat (map (\<lambda>p. chunk_layout ''IDAT'' (view_bytes bytes p)) (dataParts fr)) @
     concat epilogue"

text \<open>
  The tags of the chunks that go to the prologue group: all but the six tags that the
  extraction visitor treats on their own.
\<close>

definition ancillary :: "string \<Rightarrow> bool" where
  "ancillary t \<longleftrightarrow> t \<notin> set [''IHDR'', ''acTL'', ''fcTL'', ''fdAT'', ''IDAT'', ''IEND'']"

section \<open>Notions used in the proofs\<close>

text \<open>
  A visitor that never stops the walk and keeps no state. A visitor that never stops
  is called on the same chunks as this one.
\<close>

definition always :: "unit ParseCallback" where
  "always type bytes off len u = (True, u)"

text \<open>The number of frames resolved so far: the finalized ones and the one in progress.\<close>

definition resolved :: "ParseState \<Rightarrow> nat" where
  "resolved st = length (frames (pushFrame (frame st) (anim st)))"

text \<open>
  A data view and the 8 bytes at the start of the header view do not overlap, and
  the buffer with these 8 bytes replaced.
\<close>

definition apart :: "view \<Rightarrow> view \<Rightarrow> bool" where
  "apart h p \<longleftrightarrow> snd p = 0 \<or> fst p + snd p \<le> fst h \<or> fst h + 8 \<le> fst p"

definition patched :: "bytes \<Rightarrow> view \<Rightarrow> bytes \<Rightarrow> bytes" where
  "patched bytes h x = take (fst h) bytes @ x @ drop (fst h + 8) bytes"

text \<open>
  All data parts collected so far, and a view that is empty or lies in the payload
  of the chunk at \<open>off\<close> with declared length \<open>len\<close>.
\<close>

definition parts_of :: "ParseState \<Rightarrow> view list" where
  "parts_of st =
     concat (map dataParts (frames (anim st))) @
     (case frame st of None \<Rightarrow> [] | Some f \<Rightarrow> dataParts f)"

definition inside :: "nat \<Rightarrow> nat \<Rightarrow> view \<Rightarrow> bool" where
  "inside off len p \<longleftrightarrow> snd p = 0 \<or> (off + 8 \<le> fst p \<and> fst p + snd p \<le> off + 8 + len)"

section \<open>Sample inputs\<close>

text \<open>A PNG stream that holds the signature, a 13-byte \<open>IHDR\<close> chunk and the \<open>IEND\<close> chunk.\<close>

definition png_header_only :: bytes where
  "png_header_only =
     [137, 80, 78, 71, 13, 10, 26, 10,
      0, 0, 0, 13, 73, 72, 68, 82, 0, 0, 0, 1, 0, 0, 0, 1, 8, 0, 0, 0, 0, 58, 126, 155, 85,
      0, 0, 0, 0, 73, 69, 78, 68, 174, 66, 96, 130]"

text \<open>
  An animated PNG whose default image is not part of the animation: \<open>IHDR\<close> (a canvas
  of 2 by 1 pixels), \<open>acTL\<close>, \<open>IDAT\<close>, one \<open>fcTL\<close> (a frame of 1 by 1 pixels) with its
  \<open>fdAT\<close>, and \<open>IEND\<close>, with correct checksums.
\<close>

definition apng_default_image :: bytes where
  "apng_default_image =
     [137, 80, 78, 71, 13, 10, 26, 10,
      0, 0, 0, 13, 73, 72, 68, 82, 0, 0, 0, 2, 0, 0, 0, 1, 8, 0, 0, 0, 0, 209, 73, 32, 86,
      0, 0, 0, 8, 97, 99, 84, 76, 0, 0, 0, 1, 0, 0, 0, 2, 90, 35, 136, 140,
      0, 0, 0, 11, 73, 68, 65, 84, 120, 156, 99, 96, 96, 0, 0, 0, 3, 0, 1, 184, 173, 58, 99,
      0, 0, 0, 26, 102, 99, 84, 76, 0, 0, 0, 0, 0, 0, 0, 1, 0, 0, 0, 1, 0, 0, 0, 1,
        0, 0, 0, 0, 0, 1, 0, 100, 0, 0, 217, 184, 9, 58,
      0, 0, 0, 14, 102, 100, 65, 84, 0, 0, 0, 1, 120, 156, 99, 248, 15, 0, 1, 1, 1, 0,
        90, 197, 219, 197,
      0, 0, 0, 0, 73, 69, 78, 68, 174, 66, 96, 130]"

text \<open>The signature and the first 8 bytes of an \<open>IDAT\<close> chunk that declares 256 bytes of payload.\<close>

definition png_truncated :: bytes where
  "png_truncated = [137, 80, 78, 71, 13, 10, 26, 10, 0, 0, 1, 0, 73, 68, 65, 84]"


text \<open>An \<open>fcTL\<close> chunk on its own, with the delay fraction 1/3.\<close>

definition fcTL_one_third :: bytes where
  "fcTL_one_third =
     [0, 0, 0, 26, 102, 99, 84, 76, 0, 0, 0, 0, 0, 0, 0, 1, 0, 0, 0, 1, 0, 0, 0, 0,
      0, 0, 0, 0, 0, 1, 0, 3, 0, 0, 85, 174, 11, 95]"

section \<open>Properties of JavaScript numbers\<close>

declare bit_length.simps [simp del]

lemma bit_length_numeral:
  "bit_length (numeral k) = Suc (bit_length (numeral k div 2))"
  "bit_length 0 = 0" "bit_length (Suc 0) = Suc 0" "bit_length 1 = Suc 0"
  by (simp_all add: bit_length.simps)

lemma floor_rat_numeral: "\<lfloor>numeral a / numeral b :: rat\<rfloor> = numeral a div numeral b"
  using floor_divide_of_int_eq[of "numeral a" "numeral b", where ?'a = rat] by simp

lemma ceiling_rat_numeral: "\<lceil>numeral a / numeral b :: rat\<rceil> = - (- numeral a div numeral b)"
  using floor_divide_of_int_eq[of "- numeral a" "numeral b", where ?'a = rat]
  by (simp add: ceiling_def)

lemmas double_eval = to_double_def exponent_def round_half_even_def Let_def
  bit_length_numeral floor_rat_numeral ceiling_rat_numeral

lemma bit_length_bound: "n < 2 ^ k \<Longrightarrow> bit_length n \<le> k"
proof (induction k arbitrary: n)
  case 0
  then show ?case by (simp add: bit_length.simps)
next
  case (Suc k)
  show ?case
  proof (cases "n = 0")
    case True
    then show ?thesis by (simp add: bit_length.simps)
  next
    case False
    from Suc.prems have "n div 2 < 2 ^ k" by simp
    from Suc.IH[OF this] False show ?thesis
      by (subst bit_length.simps) simp
  qed
qed

lemma round_half_even_of_int [simp]: "round_half_even (of_int k) = k"
  by (simp add: round_half_even_def)

lemma to_double_of_nat:
  assumes "n < 2 ^ 53"
  shows "to_double (rat_of_nat n) = rat_of_nat n"
proof (cases "n = 0")
  case True
  then show ?thesis by (simp add: to_double_def)
next
  case False
  then have pos: "0 < rat_of_nat n" "1 \<le> rat_of_nat n" by simp_all
  have "bit_length n \<le> 53" by (rule bit_length_bound[OF assms])
  moreover have "0 < bit_length n" using False by (subst bit_length.simps) simp
  ultimately have e: "exponent (rat_of_nat n) = int (bit_length n) - 1"
      "int (bit_length n) - 1 \<le> 52" "0 \<le> int (bit_length n) - 1"
    using pos by (simp_all add: exponent_def)
  let ?e = "int (bit_length n) - 1"
  show ?thesis
  proof (cases "52 \<le> ?e")
    case True
    with e(2) have "?e = 52" by simp
    moreover have "round_half_even (rat_of_nat n) = int n"
      using round_half_even_of_int[of "int n"] by simp
    ultimately show ?thesis using pos
      by (simp add: to_double_def e(1) Let_def)
  next
    case False
    let ?k = "nat (52 - ?e)"
    have "rat_of_nat n * 2 ^ ?k = rat_of_int (int n * 2 ^ ?k)" by simp
    then have "round_half_even (rat_of_nat n * 2 ^ ?k) = int n * 2 ^ ?k"
      by (simp only: round_half_even_of_int)
    then show ?thesis using pos False
      by (simp add: to_double_def e(1) Let_def)
  qed
qed

lemma to_double_small:
  "to_double 10 = 10" "to_double 100 = 100" "to_double 1000 = 1000"
  using to_double_of_nat[of 10] to_double_of_nat[of 100] to_double_of_nat[of 1000]
  by simp_all

lemma readWord_bound: "readWord bytes off < 65536"
proof -
  have "unat (byteAt bytes off) < 256" "unat (byteAt bytes (off + 1)) < 256"
    using unsigned_less[of "byteAt bytes off", where ?'a = nat]
      unsigned_less[of "byteAt bytes (off + 1)", where ?'a = nat] by simp_all
  then show ?thesis by (simp add: readWord_def)
qed

lemma js_mul_1000: "n < 65536 \<Longrightarrow> js_mul 1000 (rat_of_nat n) = 1000 * rat_of_nat n"
proof -
  assume "n < 65536"
  then have "1000 * n < 2 ^ 53" by simp
  from to_double_of_nat[OF this] show ?thesis by (simp add: js_mul_def)
qed

section \<open>Properties of the chunk walker\<close>

declare parseChunks_loop.simps [simp del]

lemma logged_loop:
  "parseChunks_loop bytes (logged cb) off (s, acc) =
     (fst (parseChunks_loop bytes cb off s),
      snd (parseChunks_loop bytes cb off s),
      acc @ visits_from bytes cb off s)"
proof (induction bytes cb off s arbitrary: acc rule: parseChunks_loop.induct)
  case (1 bytes cb off s)
  obtain res s' where cb: "cb (readString bytes (off + 4) 4) bytes off (readDWord bytes off) s = (res, s')"
    by (cases "cb (readString bytes (off + 4) 4) bytes off (readDWord bytes off) s")
  let ?v = "\<lparr>v_type = readString bytes (off + 4) 4, v_bytes = bytes, v_off = off,
             v_len = readDWord bytes off, v_res = res\<rparr>"
  let ?go = "res \<and> readString bytes (off + 4) 4 \<noteq> ''IEND'' \<and> off + (12 + readDWord bytes off) < length bytes"
  have lg: "\<And>l. logged cb (readString bytes (off + 4) 4) bytes off (readDWord bytes off) (s, l) = (res, (s', l @ [?v]))"
    by (simp add: logged_def cb)
  show ?case
  proof (cases ?go)
    case True
    have ih: "\<And>l. parseChunks_loop bytes (logged cb) (off + (12 + readDWord bytes off)) (s', l) =
      (fst (parseChunks_loop bytes cb (off + (12 + readDWord bytes off)) s'),
       snd (parseChunks_loop bytes cb (off + (12 + readDWord bytes off)) s'),
       l @ visits_from bytes cb (off + (12 + readDWord bytes off)) s')"
      using "1.IH"[OF refl refl cb[symmetric] refl refl True] .
    have a: "parseChunks_loop bytes cb off s = parseChunks_loop bytes cb (off + (12 + readDWord bytes off)) s'"
      using True by (subst parseChunks_loop.simps) (simp add: cb Let_def)
    have b: "\<And>l. parseChunks_loop bytes (logged cb) off (s, l) =
        parseChunks_loop bytes (logged cb) (off + (12 + readDWord bytes off)) (s', l @ [?v])"
      using True by (subst parseChunks_loop.simps) (simp add: lg Let_def)
    have c: "visits_from bytes cb off s = ?v # visits_from bytes cb (off + (12 + readDWord bytes off)) s'"
      unfolding visits_from_def[of bytes cb off s] by (simp add: b ih)
    show ?thesis by (simp add: a b c ih)
  next
    case False
    have a: "parseChunks_loop bytes cb off s = (off + (12 + readDWord bytes off), s')"
      using False by (subst parseChunks_loop.simps) (auto simp add: cb Let_def)
    have b: "\<And>l. parseChunks_loop bytes (logged cb) off (s, l) =
        (off + (12 + readDWord bytes off), (s', l @ [?v]))"
      using False by (subst parseChunks_loop.simps) (auto simp add: lg Let_def)
    have c: "visits_from bytes cb off s = [?v]"
      unfolding visits_from_def by (simp add: b)
    show ?thesis by (simp add: a b c)
  qed
qed

lemma loop_rec:
  assumes "cb (readString bytes (off + 4) 4) bytes off (readDWord bytes off) s = (res, s')"
  shows "parseChunks_loop bytes cb off s =
     (if res \<and> readString bytes (off + 4) 4 \<noteq> ''IEND'' \<and> off + (12 + readDWord bytes off) < length bytes
      then parseChunks_loop bytes cb (off + (12 + readDWord bytes off)) s'
      else (off + (12 + readDWord bytes off), s'))"
  by (subst parseChunks_loop.simps) (simp add: assms Let_def)

lemma visits_from_rec:
  assumes "cb (readString bytes (off + 4) 4) bytes off (readDWord bytes off) s = (res, s')"
  shows "visits_from bytes cb off s =
     \<lparr>v_type = readString bytes (off + 4) 4, v_bytes = bytes, v_off = off,
             v_len = readDWord bytes off, v_res = res\<rparr> #
     (if res \<and> readString bytes (off + 4) 4 \<noteq> ''IEND'' \<and> off + (12 + readDWord bytes off) < length bytes
      then visits_from bytes cb (off + (12 + readDWord bytes off)) s'
      else [])"
proof -
  have lg: "logged cb (readString bytes (off + 4) 4) bytes off (readDWord bytes off) (s, []) =
     (res, (s', [\<lparr>v_type = readString bytes (off + 4) 4, v_bytes = bytes, v_off = off,
             v_len = readDWord bytes off, v_res = res\<rparr>]))"
    by (simp add: logged_def assms)
  show ?thesis
    unfolding visits_from_def[of bytes cb off s]
    by (subst loop_rec[where cb="logged cb" and s="(s, [])", OF lg]) (simp add: logged_loop)
qed

lemma visits_eq: "visits bytes cb s = visits_from bytes cb 8 s"
  by (simp add: visits_def visits_from_def parseChunks_def)

lemma walk_from:
  "chunk_walk bytes cb off s (visits_from bytes cb off s) \<and>
   fst (parseChunks_loop bytes cb off s) = off + sum_list (map (\<lambda>v. 12 + v_len v) (visits_from bytes cb off s)) \<and>
   snd (parseChunks_loop bytes cb off s) = replay cb s (visits_from bytes cb off s)"
proof (induction bytes cb off s rule: parseChunks_loop.induct)
  case (1 bytes cb off s)
  obtain res s' where cb: "cb (readString bytes (off + 4) 4) bytes off (readDWord bytes off) s = (res, s')"
    by (cases "cb (readString bytes (off + 4) 4) bytes off (readDWord bytes off) s")
  let ?go = "res \<and> readString bytes (off + 4) 4 \<noteq> ''IEND'' \<and> off + (12 + readDWord bytes off) < length bytes"
  show ?case
  proof (cases ?go)
    case True
    note ih = "1.IH"[OF refl refl cb[symmetric] refl refl True]
    have add: "off + 12 + readDWord bytes off = off + (12 + readDWord bytes off)" by simp
    show ?thesis
      using True ih
      by (simp add: visits_from_rec[where cb=cb and s=s, OF cb] loop_rec[where cb=cb and s=s, OF cb] cb replay_def add)
  next
    case False
    then show ?thesis
      by (auto simp add: visits_from_rec[where cb=cb and s=s, OF cb] loop_rec[where cb=cb and s=s, OF cb] cb replay_def)
  qed
qed

lemma chunk_walk_offsets:
  "chunk_walk bytes cb off s vs \<Longrightarrow> sorted_wrt (<) (map v_off vs) \<and> (\<forall>v\<in>set vs. off \<le> v_off v)"
proof (induction vs arbitrary: off s)
  case Nil
  then show ?case by simp
next
  case (Cons v vs)
  from Cons.prems have o: "v_off v = off" by simp
  show ?case
  proof (cases "vs = []")
    case True
    with o show ?thesis by simp
  next
    case False
    with Cons.prems have w: "chunk_walk bytes cb (off + 12 + v_len v) (snd (cb (v_type v) bytes off (v_len v) s)) vs"
      by (auto split: if_splits)
    from Cons.IH[OF w] o show ?thesis by fastforce
  qed
qed





subsection \<open>Evaluation of the walker on the sample inputs\<close>

lemma header_only_fields:
  "length png_header_only = 45"
  "readDWord png_header_only 8 = 13"
  "readString png_header_only 12 4 = ''IHDR''"
  "readDWord png_header_only 33 = 0"
  "readString png_header_only 37 4 = ''IEND''"
  by (simp_all add: readDWord_def byteAt_def readString_def fromCharCode_def char_of_def
        bit_Suc_0_iff png_header_only_def)

lemma header_only_scan:
  "visits png_header_only scanVisitor False =
     [\<lparr>v_type = ''IHDR'', v_bytes = png_header_only, v_off = 8, v_len = 13, v_res = True\<rparr>,
      \<lparr>v_type = ''IEND'', v_bytes = png_header_only, v_off = 33, v_len = 0, v_res = True\<rparr>]"
proof -
  have c1: "scanVisitor (readString png_header_only (8 + 4) 4) png_header_only 8
              (readDWord png_header_only 8) False = (True, False)"
    by (simp add: scanVisitor_def header_only_fields)
  have c2: "scanVisitor (readString png_header_only (33 + 4) 4) png_header_only 33
              (readDWord png_header_only 33) False = (True, False)"
    by (simp add: scanVisitor_def header_only_fields)
  show ?thesis
    unfolding visits_eq
    by (simp add: visits_from_rec[where cb=scanVisitor and s=False, OF c1]
          visits_from_rec[where cb=scanVisitor and s=False, OF c2] header_only_fields)
qed

lemma default_image_fields:
  "length apng_default_image = 152"
  "readDWord apng_default_image 8 = 13"
  "readString apng_default_image 12 4 = ''IHDR''"
  "readDWord apng_default_image 33 = 8"
  "readString apng_default_image 37 4 = ''acTL''"
  "readDWord apng_default_image 53 = 11"
  "readString apng_default_image 57 4 = ''IDAT''"
  "readDWord apng_default_image 76 = 26"
  "readString apng_default_image 80 4 = ''fcTL''"
  "readDWord apng_default_image 114 = 14"
  "readString apng_default_image 118 4 = ''fdAT''"
  "readDWord apng_default_image 140 = 0"
  "readString apng_default_image 144 4 = ''IEND''"
  "readWord apng_default_image 104 = 1"
  "readWord apng_default_image 106 = 100"
  by (simp_all add: readDWord_def readWord_def byteAt_def readString_def fromCharCode_def char_of_def
        bit_Suc_0_iff apng_default_image_def)

lemma truncated_fields:
  "length png_truncated = 16"
  "readDWord png_truncated 8 = 256"
  "readString png_truncated 12 4 = ''IDAT''"
  by (simp_all add: readDWord_def byteAt_def readString_def fromCharCode_def char_of_def
        bit_Suc_0_iff png_truncated_def)





section \<open>Properties of the chunk builder\<close>

lemma length_makeDWordArray [simp]: "length (makeDWordArray x) = 4"
  by (simp add: makeDWordArray_def)

lemma length_makeStringArray [simp]: "length (makeStringArray t) = length t"
  by (simp add: makeStringArray_def)

lemma makeChunkBytes_value:
  assumes "length type = 4"
  shows "makeChunkBytes type dataBytes =
     Inr (makeDWordArray (length dataBytes) @ makeStringArray type @ dataBytes @
          makeDWordArray (crc32 (makeStringArray type @ dataBytes) 0 (4 + length dataBytes)))"
proof -
  let ?n = "length dataBytes"
  let ?L = "makeDWordArray ?n"
  let ?T = "makeStringArray type"
  have s1: "typed_set (replicate (4 + ?n + 8) 0) ?L 0 = Inr (?L @ replicate (?n + 8) 0)"
    by (simp add: typed_set_def)
  have s2: "typed_set (?L @ replicate (?n + 8) 0) ?T 4 = Inr (?L @ ?T @ replicate (?n + 4) 0)"
    using assms by (simp add: typed_set_def)
  have s3: "typed_set (?L @ ?T @ replicate (?n + 4) 0) dataBytes 8 = Inr (?L @ ?T @ dataBytes @ replicate 4 0)"
    using assms by (simp add: typed_set_def)
  have c: "crc32 (?L @ ?T @ dataBytes @ replicate 4 0) 4 (4 + ?n) = crc32 (?T @ dataBytes) 0 (4 + ?n)"
    using assms by (simp add: crc32_def)
  have s4: "typed_set (?L @ ?T @ dataBytes @ replicate 4 0) (makeDWordArray k) (4 + ?n + 4) =
        Inr (?L @ ?T @ dataBytes @ makeDWordArray k)" for k
    using assms by (simp add: typed_set_def)
  show ?thesis
    unfolding makeChunkBytes_def Let_def assms
    by (simp only: s1 s2 s3 c s4 bindE_def sum.case)
qed

section \<open>Properties of the two passes and of the promise\<close>

lemma extractVisitor_continues [simp]: "fst (extractVisitor type bytes off len st)"
  by (simp add: extractVisitor_def Let_def split: option.split)

lemma replay_Cons:
  "replay cb s (v # vs) = replay cb (snd (cb (v_type v) (v_bytes v) (v_off v) (v_len v) s)) vs"
  by (simp add: replay_def)

lemma replay_Nil [simp]: "replay cb s [] = s"
  by (simp add: replay_def)

lemma replay_snoc:
  "replay cb s (vs @ [v]) = snd (cb (v_type v) (v_bytes v) (v_off v) (v_len v) (replay cb s vs))"
  by (simp add: replay_def)

lemma extractPass_replay:
  "extractPass bytes = replay extractVisitor initState (visits bytes extractVisitor initState)"
  using walk_from[of bytes extractVisitor 8 initState]
  by (simp add: extractPass_def parseChunks_def visits_eq)

lemma isAnimated_replay:
  "isAnimated bytes = replay scanVisitor False (visits bytes scanVisitor False)"
  using walk_from[of bytes scanVisitor 8 False]
  by (simp add: isAnimated_def parseChunks_def visits_eq)

lemma replay_scanVisitor:
  "replay scanVisitor b vs = (b \<or> ''acTL'' \<in> set (map v_type vs))"
  by (induction vs arbitrary: b) (auto simp add: replay_Cons scanVisitor_def)

lemma isAnimated_iff:
  "isAnimated bytes \<longleftrightarrow> ''acTL'' \<in> set (map v_type (visits bytes scanVisitor False))"
  by (simp add: isAnimated_replay replay_scanVisitor)

lemma resolved_step:
  "resolved (snd (extractVisitor t b off len st)) =
     (if t = ''fcTL'' \<or> (t = ''IDAT'' \<and> frame st = None) then resolved st + 1 else resolved st)"
  by (auto simp add: resolved_def extractVisitor_def Let_def pushFrame_def split: option.split)

lemma frame_step:
  "frame (snd (extractVisitor t b off len st)) = None \<longleftrightarrow>
     frame st = None \<and> t \<noteq> ''fcTL'' \<and> t \<noteq> ''IDAT''"
  by (auto simp add: extractVisitor_def Let_def split: option.split)

lemma resolved_replay:
  "resolved (replay extractVisitor st vs) =
     resolved st + count_list (map v_type vs) ''fcTL'' +
     (if frame st = None \<and> ''IDAT'' \<in> set (takeWhile (\<lambda>t. t \<noteq> ''fcTL'') (map v_type vs))
      then 1 else 0)"
proof (induction vs arbitrary: st)
  case Nil
  then show ?case by simp
next
  case (Cons v vs)
  let ?st = "snd (extractVisitor (v_type v) (v_bytes v) (v_off v) (v_len v) st)"
  show ?case
    unfolding replay_Cons Cons.IH[of ?st]
    by (simp add: resolved_step frame_step)
qed

lemma resolved_init [simp]: "resolved initState = 0" "frame initState = None"
  by (simp_all add: resolved_def initState_def new_Animation_def pushFrame_def)

lemma extracted_frames:
  "length (frames (extracted bytes)) =
     count_list (map v_type (visits bytes extractVisitor initState)) ''fcTL'' +
     (if ''IDAT'' \<in> set (takeWhile (\<lambda>t. t \<noteq> ''fcTL'') (map v_type (visits bytes extractVisitor initState)))
      then 1 else 0)"
  using resolved_replay[of initState "visits bytes extractVisitor initState"]
  by (simp add: extracted_def Let_def extractPass_replay resolved_def[symmetric])

lemma visits_from_always:
  assumes "\<And>t b off len st. fst (cb t b off len st)"
  shows "visits_from bytes cb off s = visits_from bytes always off ()"
  using assms
proof (induction bytes cb off s rule: parseChunks_loop.induct)
  case (1 bytes cb off s)
  obtain res s' where cb0: "cb (readString bytes (off + 4) 4) bytes off (readDWord bytes off) s = (res, s')"
    by (cases "cb (readString bytes (off + 4) 4) bytes off (readDWord bytes off) s")
  have "res"
    using "1.prems"[of "readString bytes (off + 4) 4" bytes off "readDWord bytes off" s] cb0 by simp
  with cb0 have cb: "cb (readString bytes (off + 4) 4) bytes off (readDWord bytes off) s = (True, s')"
    by simp
  have al: "always (readString bytes (off + 4) 4) bytes off (readDWord bytes off) () = (True, ())"
    by (simp add: always_def)
  show ?case
  proof (cases "readString bytes (off + 4) 4 \<noteq> ''IEND'' \<and> off + (12 + readDWord bytes off) < length bytes")
    case True
    then have "True \<and> readString bytes (off + 4) 4 \<noteq> ''IEND'' \<and> off + (12 + readDWord bytes off) < length bytes"
      by simp
    note ih = "1.IH"[OF refl refl cb[symmetric] refl refl this "1.prems"]
    show ?thesis
      using True ih
      by (simp add: visits_from_rec[where cb=cb and s=s, OF cb]
            visits_from_rec[where cb=always and s="()", OF al])
  next
    case False
    then show ?thesis
      by (auto simp add: visits_from_rec[where cb=cb and s=s, OF cb]
            visits_from_rec[where cb=always and s="()", OF al])
  qed
qed

lemma chunks_rec:
  "visits_from bytes always off () =
     \<lparr>v_type = readString bytes (off + 4) 4, v_bytes = bytes, v_off = off,
       v_len = readDWord bytes off, v_res = True\<rparr> #
     (if readString bytes (off + 4) 4 \<noteq> ''IEND'' \<and> off + (12 + readDWord bytes off) < length bytes
      then visits_from bytes always (off + (12 + readDWord bytes off)) ()
      else [])"
proof -
  have al: "always (readString bytes (off + 4) 4) bytes off (readDWord bytes off) () = (True, ())"
    by (simp add: always_def)
  show ?thesis
    by (simp add: visits_from_rec[where cb=always and s="()", OF al])
qed

lemma extract_visits:
  "visits bytes extractVisitor initState = visits_from bytes always 8 ()"
  unfolding visits_eq by (rule visits_from_always) simp

lemma default_image_chunks:
  "map v_type (visits apng_default_image extractVisitor initState) =
     [''IHDR'', ''acTL'', ''IDAT'', ''fcTL'', ''fdAT'', ''IEND'']"
  "map v_off (visits apng_default_image extractVisitor initState) = [8, 33, 53, 76, 114, 140]"
  "map v_len (visits apng_default_image extractVisitor initState) = [13, 8, 11, 26, 14, 0]"
proof -
  have "visits_from apng_default_image always 8 () =
    [\<lparr>v_type = ''IHDR'', v_bytes = apng_default_image, v_off = 8, v_len = 13, v_res = True\<rparr>,
     \<lparr>v_type = ''acTL'', v_bytes = apng_default_image, v_off = 33, v_len = 8, v_res = True\<rparr>,
     \<lparr>v_type = ''IDAT'', v_bytes = apng_default_image, v_off = 53, v_len = 11, v_res = True\<rparr>,
     \<lparr>v_type = ''fcTL'', v_bytes = apng_default_image, v_off = 76, v_len = 26, v_res = True\<rparr>,
     \<lparr>v_type = ''fdAT'', v_bytes = apng_default_image, v_off = 114, v_len = 14, v_res = True\<rparr>,
     \<lparr>v_type = ''IEND'', v_bytes = apng_default_image, v_off = 140, v_len = 0, v_res = True\<rparr>]"
    apply (subst chunks_rec, simp add: default_image_fields)
    apply (subst chunks_rec, simp add: default_image_fields)
    apply (subst chunks_rec, simp add: default_image_fields)
    apply (subst chunks_rec, simp add: default_image_fields)
    apply (subst chunks_rec, simp add: default_image_fields)
    apply (subst chunks_rec, simp add: default_image_fields)
    done
  then show
    "map v_type (visits apng_default_image extractVisitor initState) =
     [''IHDR'', ''acTL'', ''IDAT'', ''fcTL'', ''fdAT'', ''IEND'']"
    "map v_off (visits apng_default_image extractVisitor initState) = [8, 33, 53, 76, 114, 140]"
    "map v_len (visits apng_default_image extractVisitor initState) = [13, 8, 11, 26, 14, 0]"
    by (simp_all add: extract_visits)
qed

lemma takeWhile_absent: "c \<notin> set tys \<Longrightarrow> takeWhile (\<lambda>t. t \<noteq> c) tys = tys"
  by (induction tys) auto

lemma truncated_chunks:
  "map v_type (visits png_truncated extractVisitor initState) = [''IDAT'']"
  unfolding extract_visits
  by (subst chunks_rec, simp add: truncated_fields)

lemma synthFrames_length:
  "synthFrames hdr pre post buf frs = (frs', ss, buf', err) \<Longrightarrow> length frs' = length frs"
proof (induction frs arbitrary: buf frs' ss buf' err)
  case Nil
  then show ?case by simp
next
  case (Cons fr frs)
  then show ?case
    by (auto split: prod.splits sum.splits)
qed

lemma settled_parse:
  "settled (parseAPNG bytes ignoreSingle forceLoop) = Rejected (Message ''Not an animated PNG'') \<longleftrightarrow>
     ignoreSingle \<and> (\<not> isAnimated bytes \<or> length (frames (extracted bytes)) \<le> 1)"
  by (auto simp add: parseAPNG_def rejectNotAnimated_def extracted_def Let_def
        split: prod.splits option.splits)

lemma settle_not_animated:
  "new \<noteq> Rejected (Message ''Not an animated PNG'') \<Longrightarrow>
   settle p new = Rejected (Message ''Not an animated PNG'') \<longleftrightarrow>
   p = Rejected (Message ''Not an animated PNG'')"
  by (auto simp add: settle_def)

lemma img_event_not_animated:
  "img_event r r' \<Longrightarrow>
   settled r' = Rejected (Message ''Not an animated PNG'') \<longleftrightarrow>
   settled r = Rejected (Message ''Not an animated PNG'')"
  by (induction rule: img_event.induct) (auto simp add: settle_not_animated)

lemma reaches_not_animated:
  "reaches r r' \<Longrightarrow>
   settled r' = Rejected (Message ''Not an animated PNG'') \<longleftrightarrow>
   settled r = Rejected (Message ''Not an animated PNG'')"
  by (induction rule: reaches.induct) (auto simp add: img_event_not_animated)

lemma header_only_not_animated: "\<not> isAnimated png_header_only"
  by (simp add: isAnimated_iff header_only_scan)

lemma numPlays_step:
  "numPlays (anim (snd (extractVisitor t b off len st))) =
     (if t = ''acTL'' then readDWord b (off + 8 + 4) else numPlays (anim st))"
  by (auto simp add: extractVisitor_def Let_def pushFrame_def split: option.split)

lemma numPlays_replay:
  "numPlays (anim (replay extractVisitor st vs)) =
     (case filter (\<lambda>v. v_type v = ''acTL'') vs of
        [] \<Rightarrow> numPlays (anim st)
      | a # as \<Rightarrow> readDWord (v_bytes (last (a # as))) (v_off (last (a # as)) + 8 + 4))"
proof (induction vs rule: rev_induct)
  case Nil
  then show ?case by simp
next
  case (snoc v vs)
  show ?case
    using snoc.IH
    by (simp add: replay_snoc numPlays_step split: list.splits)
qed

lemma chunk_walk_bytes:
  "chunk_walk bytes cb off s vs \<Longrightarrow> \<forall>v\<in>set vs. v_bytes v = bytes"
proof (induction vs arbitrary: off s)
  case Nil
  then show ?case by simp
next
  case (Cons v vs)
  show ?case
  proof (cases "vs = []")
    case True
    with Cons.prems show ?thesis by simp
  next
    case False
    with Cons.prems have w: "chunk_walk bytes cb (off + 12 + v_len v) (snd (cb (v_type v) bytes off (v_len v) s)) vs"
      by (auto split: if_splits)
    from Cons.IH[OF w] Cons.prems show ?thesis by simp
  qed
qed

lemma visits_bytes: "v \<in> set (visits bytes cb s) \<Longrightarrow> v_bytes v = bytes"
  using walk_from[of bytes cb 8 s] chunk_walk_bytes[of bytes cb 8 s "visits bytes cb s"]
  by (simp add: visits_eq)

lemma numPlays_pushFrame [simp]: "numPlays (pushFrame fr a) = numPlays a"
  by (simp add: pushFrame_def split: option.split)

lemma numPlays_extracted:
  "numPlays (extracted bytes) =
     (case filter (\<lambda>v. v_type v = ''acTL'') (visits bytes extractVisitor initState) of
        [] \<Rightarrow> 0
      | a # as \<Rightarrow> readDWord bytes (v_off (last (a # as)) + 8 + 4))"
proof -
  let ?vs = "visits bytes extractVisitor initState"
  let ?acs = "filter (\<lambda>v. v_type v = ''acTL'') ?vs"
  have init: "numPlays (anim initState) = 0"
    by (simp add: initState_def new_Animation_def)
  have e: "numPlays (extracted bytes) = numPlays (anim (replay extractVisitor initState ?vs))"
    by (simp add: extracted_def Let_def extractPass_replay)
  show ?thesis
  proof (cases ?acs)
    case Nil
    then show ?thesis
      by (simp only: e numPlays_replay list.case init)
  next
    case (Cons a as)
    then have "last (a # as) \<in> set ?acs"
      by (metis last_in_set list.distinct(1))
    then have "last (a # as) \<in> set ?vs" by simp
    then have lb: "v_bytes (last (a # as)) = bytes" by (rule visits_bytes)
    show ?thesis
      by (simp only: e numPlays_replay Cons list.case lb)
  qed
qed

lemma animation_parse:
  "\<not> (ignoreSingle \<and> (\<not> isAnimated bytes \<or> length (frames (extracted bytes)) \<le> 1)) \<Longrightarrow>
   numPlays (animation (parseAPNG bytes ignoreSingle forceLoop)) =
     numPlays (playPolicy forceLoop (extracted bytes)) \<and>
   length (frames (animation (parseAPNG bytes ignoreSingle forceLoop))) =
     length (frames (extracted bytes))"
  by (auto simp add: parseAPNG_def extracted_def Let_def playPolicy_def
        split: prod.splits dest: synthFrames_length)

lemma default_image_visits:
  "visits apng_default_image extractVisitor initState =
    [\<lparr>v_type = ''IHDR'', v_bytes = apng_default_image, v_off = 8, v_len = 13, v_res = True\<rparr>,
     \<lparr>v_type = ''acTL'', v_bytes = apng_default_image, v_off = 33, v_len = 8, v_res = True\<rparr>,
     \<lparr>v_type = ''IDAT'', v_bytes = apng_default_image, v_off = 53, v_len = 11, v_res = True\<rparr>,
     \<lparr>v_type = ''fcTL'', v_bytes = apng_default_image, v_off = 76, v_len = 26, v_res = True\<rparr>,
     \<lparr>v_type = ''fdAT'', v_bytes = apng_default_image, v_off = 114, v_len = 14, v_res = True\<rparr>,
     \<lparr>v_type = ''IEND'', v_bytes = apng_default_image, v_off = 140, v_len = 0, v_res = True\<rparr>]"
  unfolding extract_visits
  apply (subst chunks_rec, simp add: default_image_fields)
  apply (subst chunks_rec, simp add: default_image_fields)
  apply (subst chunks_rec, simp add: default_image_fields)
  apply (subst chunks_rec, simp add: default_image_fields)
  apply (subst chunks_rec, simp add: default_image_fields)
  apply (subst chunks_rec, simp add: default_image_fields)
  done

lemma default_image_numPlays: "readDWord apng_default_image 45 = 2"
  by (simp add: readDWord_def byteAt_def apng_default_image_def)

lemma default_image_animated: "isAnimated apng_default_image"
proof -
  have c1: "scanVisitor (readString apng_default_image (8 + 4) 4) apng_default_image 8
              (readDWord apng_default_image 8) False = (True, False)"
    by (simp add: scanVisitor_def default_image_fields)
  have c2: "scanVisitor (readString apng_default_image (33 + 4) 4) apng_default_image 33
              (readDWord apng_default_image 33) False = (False, True)"
    by (simp add: scanVisitor_def default_image_fields)
  have "map v_type (visits apng_default_image scanVisitor False) = [''IHDR'', ''acTL'']"
    unfolding visits_eq
    by (simp add: visits_from_rec[where cb=scanVisitor and s=False, OF c1]
          visits_from_rec[where cb=scanVisitor and s=False, OF c2] default_image_fields)
  then show ?thesis by (simp add: isAnimated_iff)
qed

lemma reaches_idle:
  "reaches r r' \<Longrightarrow> loading r = 0 \<Longrightarrow> r' = r"
proof (induction rule: reaches.induct)
  case (start r)
  then show ?case by simp
next
  case (later r r' r'')
  then have "r' = r" by simp
  with later.hyps(2) later.prems show ?case
    by (auto elim: img_event.cases)
qed

lemma no_frames_iff:
  "frames (extracted bytes) = [] \<longleftrightarrow>
     ''fcTL'' \<notin> set (map v_type (visits bytes extractVisitor initState)) \<and>
     ''IDAT'' \<notin> set (map v_type (visits bytes extractVisitor initState))"
proof -
  let ?tys = "map v_type (visits bytes extractVisitor initState)"
  have a: "length (frames (extracted bytes)) =
     count_list ?tys ''fcTL'' + (if ''IDAT'' \<in> set (takeWhile (\<lambda>t. t \<noteq> ''fcTL'') ?tys) then 1 else 0)"
    by (rule extracted_frames)
  show ?thesis
  proof (cases "''fcTL'' \<in> set ?tys")
    case True
    then have "count_list ?tys ''fcTL'' \<noteq> 0"
      using count_list_0_iff[of ?tys "''fcTL''"] by blast
    with a have "length (frames (extracted bytes)) \<noteq> 0" by simp
    with True show ?thesis by simp
  next
    case False
    then have tw: "takeWhile (\<lambda>t. t \<noteq> ''fcTL'') ?tys = ?tys"
      by (rule takeWhile_absent)
    from False have c0: "count_list ?tys ''fcTL'' = 0"
      by (simp add: count_list_0_iff)
    have "frames (extracted bytes) = [] \<longleftrightarrow> length (frames (extracted bytes)) = 0" by simp
    also have "\<dots> \<longleftrightarrow> ''IDAT'' \<notin> set ?tys"
      unfolding a tw c0 by simp
    finally show ?thesis using False by simp
  qed
qed

lemma no_frames_run:
  assumes "frames (extracted bytes) = []" "\<not> ignoreSingle"
  shows "parseAPNG bytes ignoreSingle forceLoop =
     \<lparr>settled = Pending, animation = (extracted bytes)\<lparr>numPlays := 1\<rparr>, streams = [],
      loading = 0, createdImages = 0, buffer = bytes\<rparr>"
  using assms
  by (simp add: parseAPNG_def extracted_def Let_def playPolicy_def)

lemma header_only_chunks:
  "map v_type (visits png_header_only extractVisitor initState) = [''IHDR'', ''IEND'']"
  unfolding extract_visits
  apply (subst chunks_rec, simp add: header_only_fields)
  apply (subst chunks_rec, simp add: header_only_fields)
  done

section \<open>Properties of the frame synthesizer\<close>

lemma makeChunkBytes_chunk_layout:
  "length type = 4 \<Longrightarrow> makeChunkBytes type payload = Inr (chunk_layout type payload)"
  by (simp add: makeChunkBytes_value chunk_layout_def)

lemma view_bytes_patched:
  assumes "apart h p" "length x = 8" "fst h + 8 \<le> length bytes"
  shows "view_bytes (patched bytes h x) p = view_bytes bytes p"
proof -
  consider "snd p = 0" | "fst p + snd p \<le> fst h" | "fst h + 8 \<le> fst p"
    using assms(1) by (auto simp add: apart_def)
  then show ?thesis
  proof cases
    case 1
    then show ?thesis by (simp add: view_bytes_def)
  next
    case 2
    have "take (snd p) (drop (fst p) (patched bytes h x)) =
          take (snd p) (drop (fst p) (take (fst h) bytes))"
      using 2 assms(3) by (simp add: patched_def)
    also have "\<dots> = take (snd p) (drop (fst p) bytes)"
      using 2 by (simp add: drop_take min_def)
    finally show ?thesis by (simp add: view_bytes_def)
  next
    case 3
    then show ?thesis
      using assms(2,3) by (simp add: view_bytes_def patched_def)
  qed
qed

lemma patched_self:
  "fst h + 8 \<le> length bytes \<Longrightarrow> patched bytes h (take 8 (drop (fst h) bytes)) = bytes"
proof -
  assume a: "fst h + 8 \<le> length bytes"
  have "take 8 (drop (fst h) bytes) @ drop (fst h + 8) bytes = drop (fst h) bytes"
    by (metis add.commute append_take_drop_id drop_drop)
  then show ?thesis by (simp add: patched_def)
qed

lemma length_patched [simp]:
  "length x = 8 \<Longrightarrow> fst h + 8 \<le> length bytes \<Longrightarrow> length (patched bytes h x) = length bytes"
  by (simp add: patched_def)

lemma view_set_patched:
  assumes "length x = 8" "fst h + 8 \<le> length bytes" "8 \<le> snd h"
  shows "view_set (patched bytes h x) h (makeDWordArray w) 0 =
           Inr (patched bytes h (makeDWordArray w @ drop 4 x))"
    and "view_set (patched bytes h (makeDWordArray w @ drop 4 x)) h (makeDWordArray k) 4 =
           Inr (patched bytes h (makeDWordArray w @ makeDWordArray k))"
  using assms by (simp_all add: view_set_def patched_def)

lemma header_view_patched:
  assumes "length x = 8" "fst h + snd h \<le> length bytes" "8 \<le> snd h"
  shows "view_bytes (patched bytes h x) h = x @ drop 8 (view_bytes bytes h)"
proof -
  have "drop 8 (take (snd h) (drop (fst h) bytes)) = take (snd h - 8) (drop (fst h + 8) bytes)"
    by (simp add: drop_take add.commute)
  then show ?thesis
    using assms by (simp add: view_bytes_def patched_def)
qed

lemma mapE_Inr_set: "(\<And>x. x \<in> set xs \<Longrightarrow> f x = Inr (g x)) \<Longrightarrow> mapE f xs = Inr (map g xs)"
  by (induction xs) (simp_all add: bindE_def)

lemma synthFrame_patched:
  assumes x: "length x = 8" and h: "fst h + snd h \<le> length bytes" "8 \<le> snd h"
    and ap: "\<forall>p\<in>set (dataParts fr). apart h p"
  shows "synthFrame (Some h) pre post (patched bytes h x) fr =
     (Inr (frame_stream (view_bytes bytes h) pre post bytes fr),
      patched bytes h (makeDWordArray (Frame.width fr) @ makeDWordArray (Frame.height fr)))"
proof -
  let ?y = "makeDWordArray (Frame.width fr) @ makeDWordArray (Frame.height fr)"
  have h8: "fst h + 8 \<le> length bytes" using h by simp
  have y: "length ?y = 8" by simp
  have s1: "view_set (patched bytes h x) h (makeDWordArray (Frame.width fr)) 0 =
           Inr (patched bytes h (makeDWordArray (Frame.width fr) @ drop 4 x))"
    by (rule view_set_patched(1)[OF x h8 h(2)])
  have s2: "view_set (patched bytes h (makeDWordArray (Frame.width fr) @ drop 4 x)) h
              (makeDWordArray (Frame.height fr)) 4 = Inr (patched bytes h ?y)"
    by (rule view_set_patched(2)[OF x h8 h(2)])
  have hd: "makeChunkBytes ''IHDR'' (view_bytes (patched bytes h ?y) h) =
        Inr (chunk_layout ''IHDR'' (?y @ drop 8 (view_bytes bytes h)))"
    by (simp only: header_view_patched[OF y h] makeChunkBytes_chunk_layout[of "''IHDR''", simplified])
  have dp: "mapE (\<lambda>p. makeChunkBytes ''IDAT'' (view_bytes (patched bytes h ?y) p)) (dataParts fr) =
        Inr (map (\<lambda>p. chunk_layout ''IDAT'' (view_bytes bytes p)) (dataParts fr))"
  proof (rule mapE_Inr_set)
    fix p assume "p \<in> set (dataParts fr)"
    with ap have "apart h p" by simp
    then have "view_bytes (patched bytes h ?y) p = view_bytes bytes p"
      by (rule view_bytes_patched[OF _ y h8])
    then show "makeChunkBytes ''IDAT'' (view_bytes (patched bytes h ?y) p) =
        Inr (chunk_layout ''IDAT'' (view_bytes bytes p))"
      by (simp add: makeChunkBytes_chunk_layout)
  qed
  show ?thesis
    unfolding synthFrame_def
    by (simp only: option.case s1 s2 sum.case hd dp bindE_def frame_stream_def append_assoc)
qed

lemma synthFrames_patched:
  assumes x: "length x = 8" and h: "fst h + snd h \<le> length bytes" "8 \<le> snd h"
    and ap: "\<forall>f\<in>set frs. \<forall>p\<in>set (dataParts f). apart h p"
  shows "synthFrames (Some h) pre post (patched bytes h x) frs =
     (map (\<lambda>f. f\<lparr>dataParts := []\<rparr>) frs,
      map (frame_stream (view_bytes bytes h) pre post bytes) frs,
      patched bytes h (if frs = [] then x
                       else makeDWordArray (Frame.width (last frs)) @
                            makeDWordArray (Frame.height (last frs))),
      None)"
  using x ap
proof (induction frs arbitrary: x)
  case Nil
  then show ?case by simp
next
  case (Cons fr frs)
  let ?y = "makeDWordArray (Frame.width fr) @ makeDWordArray (Frame.height fr)"
  have y: "length ?y = 8" by simp
  have sf: "synthFrame (Some h) pre post (patched bytes h x) fr =
     (Inr (frame_stream (view_bytes bytes h) pre post bytes fr), patched bytes h ?y)"
    using Cons.prems by (intro synthFrame_patched h) simp_all
  have rest: "synthFrames (Some h) pre post (patched bytes h ?y) frs =
     (map (\<lambda>f. f\<lparr>dataParts := []\<rparr>) frs,
      map (frame_stream (view_bytes bytes h) pre post bytes) frs,
      patched bytes h (if frs = [] then ?y
                       else makeDWordArray (Frame.width (last frs)) @
                            makeDWordArray (Frame.height (last frs))),
      None)"
    using Cons.prems by (intro Cons.IH y) simp
  show ?case
    by (simp add: sf rest)
qed

lemma subarray_bounds:
  "fst (subarray bytes b e) + snd (subarray bytes b e) \<le> length bytes"
  unfolding subarray_def Let_def fst_conv snd_conv by arith

lemma subarray_inside:
  "inside off len (subarray bytes (off + 8) (off + 8 + len))"
  "inside off len (subarray bytes (off + 8 + 4) (off + 8 + len))"
  by (auto simp add: inside_def subarray_def Let_def min_def)

lemma subarray_header:
  assumes "h = subarray bytes (off + 8) (off + 8 + len)" "8 \<le> snd h"
  shows "fst h = off + 8" "fst h + 8 \<le> off + 8 + len"
  using assms by (auto simp add: subarray_def Let_def min_def split: if_splits)

lemma header_step:
  "headerDataBytes (snd (extractVisitor t b off len st)) =
     (if t = ''IHDR'' then Some (subarray b (off + 8) (off + 8 + len)) else headerDataBytes st)"
  by (simp add: extractVisitor_def Let_def split: option.split)

lemma parts_step:
  assumes "p \<in> set (parts_of (snd (extractVisitor t b off len st)))"
  shows "p \<in> set (parts_of st) \<or> (t \<noteq> ''IHDR'' \<and> inside off len p)"
proof -
  consider "t = ''IHDR''" | "t = ''acTL''" | "t = ''fcTL''" | "t = ''fdAT''" | "t = ''IDAT''"
    | "t \<noteq> ''IHDR''" "t \<noteq> ''acTL''" "t \<noteq> ''fcTL''" "t \<noteq> ''fdAT''" "t \<noteq> ''IDAT''"
    by blast
  then show ?thesis
  proof cases
    case 1
    with assms show ?thesis by (simp add: extractVisitor_def parts_of_def)
  next
    case 2
    with assms show ?thesis by (simp add: extractVisitor_def parts_of_def)
  next
    case 3
    with assms show ?thesis
      by (auto simp add: extractVisitor_def parts_of_def Let_def pushFrame_def split: option.splits)
  next
    case 4
    with assms subarray_inside(2)[of off len b] show ?thesis
      by (auto simp add: extractVisitor_def parts_of_def split: option.splits)
  next
    case 5
    with assms subarray_inside(1)[of off len b] show ?thesis
      by (auto simp add: extractVisitor_def parts_of_def split: option.splits)
  next
    case 6
    with assms show ?thesis
      by (cases "t = ''IEND''") (simp_all add: extractVisitor_def parts_of_def)
  qed
qed

lemma parts_init [simp]: "parts_of initState = []" "headerDataBytes initState = None"
  by (simp_all add: parts_of_def initState_def new_Animation_def)

lemma parts_replay:
  "p \<in> set (parts_of (replay extractVisitor initState vs)) \<Longrightarrow>
   \<exists>v\<in>set vs. v_type v \<noteq> ''IHDR'' \<and> inside (v_off v) (v_len v) p"
proof (induction vs arbitrary: p rule: rev_induct)
  case Nil
  then show ?case by simp
next
  case (snoc v vs)
  from snoc.prems parts_step[of p "v_type v" "v_bytes v" "v_off v" "v_len v" "replay extractVisitor initState vs"]
  have "p \<in> set (parts_of (replay extractVisitor initState vs)) \<or>
        (v_type v \<noteq> ''IHDR'' \<and> inside (v_off v) (v_len v) p)"
    by (simp add: replay_snoc)
  then show ?case
  proof
    assume "p \<in> set (parts_of (replay extractVisitor initState vs))"
    from snoc.IH[OF this] show ?thesis by auto
  next
    assume "v_type v \<noteq> ''IHDR'' \<and> inside (v_off v) (v_len v) p"
    then show ?thesis by auto
  qed
qed

lemma header_replay:
  "headerDataBytes (replay extractVisitor initState vs) = Some h \<Longrightarrow>
   \<exists>v\<in>set vs. v_type v = ''IHDR'' \<and> h = subarray (v_bytes v) (v_off v + 8) (v_off v + 8 + v_len v)"
proof (induction vs rule: rev_induct)
  case Nil
  then show ?case by simp
next
  case (snoc v vs)
  then show ?case
    by (auto simp add: replay_snoc header_step split: if_splits)
qed

lemma chunk_walk_separated:
  "chunk_walk bytes cb off s vs \<Longrightarrow> sorted_wrt (\<lambda>a b. v_off a + 12 + v_len a \<le> v_off b) vs"
proof (induction vs arbitrary: off s)
  case Nil
  then show ?case by simp
next
  case (Cons v vs)
  show ?case
  proof (cases "vs = []")
    case True
    then show ?thesis by simp
  next
    case False
    with Cons.prems have w: "chunk_walk bytes cb (off + 12 + v_len v) (snd (cb (v_type v) bytes off (v_len v) s)) vs"
      and o: "v_off v = off"
      by (auto split: if_splits)
    from chunk_walk_offsets[OF w] have "\<forall>u\<in>set vs. off + 12 + v_len v \<le> v_off u" by simp
    with Cons.IH[OF w] o show ?thesis by simp
  qed
qed

lemma sorted_wrt_either:
  "sorted_wrt R xs \<Longrightarrow> a \<in> set xs \<Longrightarrow> b \<in> set xs \<Longrightarrow> a \<noteq> b \<Longrightarrow> R a b \<or> R b a"
  by (induction xs) auto

lemma parts_extracted:
  "f \<in> set (frames (extracted bytes)) \<Longrightarrow> p \<in> set (dataParts f) \<Longrightarrow>
   p \<in> set (parts_of (extractPass bytes))"
  by (auto simp add: extracted_def Let_def pushFrame_def parts_of_def split: option.splits)

lemma data_apart_header:
  assumes hdr: "headerDataBytes (extractPass bytes) = Some h" and h8: "8 \<le> snd h"
    and f: "f \<in> set (frames (extracted bytes))" and p: "p \<in> set (dataParts f)"
  shows "apart h p"
proof -
  let ?vs = "visits bytes extractVisitor initState"
  have walk: "chunk_walk bytes extractVisitor 8 initState ?vs"
    using walk_from[of bytes extractVisitor 8 initState] by (simp add: visits_eq)
  have sep: "sorted_wrt (\<lambda>a b. v_off a + 12 + v_len a \<le> v_off b) ?vs"
    by (rule chunk_walk_separated[OF walk])
  from hdr obtain v where v: "v \<in> set ?vs" "v_type v = ''IHDR''"
      "h = subarray (v_bytes v) (v_off v + 8) (v_off v + 8 + v_len v)"
    using header_replay[of ?vs h] by (auto simp add: extractPass_replay)
  from parts_extracted[OF f p] obtain w where w: "w \<in> set ?vs" "v_type w \<noteq> ''IHDR''"
      "inside (v_off w) (v_len w) p"
    using parts_replay[of p ?vs] by (auto simp add: extractPass_replay)
  have hv: "fst h = v_off v + 8" "fst h + 8 \<le> v_off v + 8 + v_len v"
    using subarray_header[OF v(3) h8] by simp_all
  from v(2) w(2) have "v \<noteq> w" by auto
  with sorted_wrt_either[OF sep v(1) w(1)]
  consider "v_off v + 12 + v_len v \<le> v_off w" | "v_off w + 12 + v_len w \<le> v_off v"
    by blast
  then show ?thesis
  proof cases
    case 1
    with hv w(3) show ?thesis by (auto simp add: apart_def inside_def)
  next
    case 2
    with hv w(3) show ?thesis by (auto simp add: apart_def inside_def)
  qed
qed

lemma header_in_buffer:
  assumes "headerDataBytes (extractPass bytes) = Some h"
  shows "fst h + snd h \<le> length bytes"
proof -
  let ?vs = "visits bytes extractVisitor initState"
  from assms obtain v where v: "v \<in> set ?vs"
      "h = subarray (v_bytes v) (v_off v + 8) (v_off v + 8 + v_len v)"
    using header_replay[of ?vs h] by (auto simp add: extractPass_replay)
  from v(1) have "v_bytes v = bytes" by (rule visits_bytes)
  with v(2) show ?thesis by (simp add: subarray_bounds)
qed

lemma frames_playPolicy [simp]: "frames (playPolicy forceLoop a) = frames a"
  by (simp add: playPolicy_def)

lemma parse_run:
  assumes hdr: "headerDataBytes (extractPass bytes) = Some h" and h8: "8 \<le> snd h"
    and ok: "\<not> (ignoreSingle \<and> (\<not> isAnimated bytes \<or> length (frames (extracted bytes)) \<le> 1))"
  shows "parseAPNG bytes ignoreSingle forceLoop =
     \<lparr>settled = Pending,
      animation = (playPolicy forceLoop (extracted bytes))
                    \<lparr>frames := map (\<lambda>f. f\<lparr>dataParts := []\<rparr>) (frames (extracted bytes))\<rparr>,
      streams = map (frame_stream (view_bytes bytes h) (preDataParts (extractPass bytes))
                       (postDataParts (extractPass bytes)) bytes) (frames (extracted bytes)),
      loading = length (frames (extracted bytes)), createdImages = 0,
      buffer = (if frames (extracted bytes) = [] then bytes
                else patched bytes h
                       (makeDWordArray (Frame.width (last (frames (extracted bytes)))) @
                        makeDWordArray (Frame.height (last (frames (extracted bytes))))))\<rparr>"
proof -
  let ?frs = "frames (extracted bytes)"
  let ?x = "take 8 (drop (fst h) bytes)"
  have hb: "fst h + snd h \<le> length bytes" by (rule header_in_buffer[OF hdr])
  with h8 have h8b: "fst h + 8 \<le> length bytes" by simp
  then have x: "length ?x = 8" by simp
  have self: "patched bytes h ?x = bytes" by (rule patched_self[OF h8b])
  have ap: "\<forall>f\<in>set ?frs. \<forall>p\<in>set (dataParts f). apart h p"
    using data_apart_header[OF hdr h8] by blast
  have sy: "synthFrames (Some h) (preDataParts (extractPass bytes)) (postDataParts (extractPass bytes))
              bytes ?frs =
     (map (\<lambda>f. f\<lparr>dataParts := []\<rparr>) ?frs,
      map (frame_stream (view_bytes bytes h) (preDataParts (extractPass bytes))
             (postDataParts (extractPass bytes)) bytes) ?frs,
      patched bytes h (if ?frs = [] then ?x
                       else makeDWordArray (Frame.width (last ?frs)) @
                            makeDWordArray (Frame.height (last ?frs))),
      None)"
    using synthFrames_patched[OF x hb h8 ap, of "preDataParts (extractPass bytes)"
        "postDataParts (extractPass bytes)"]
    by (simp only: self)
  have e: "pushFrame (frame (extractPass bytes)) (anim (extractPass bytes)) = extracted bytes"
    by (simp add: extracted_def Let_def)
  show ?thesis
    using ok
    by (auto simp add: parseAPNG_def Let_def e hdr sy self)
qed

section \<open>The header template, the chunk groups and the sample animation\<close>

lemma header_replay_eq:
  "headerDataBytes (replay extractVisitor st vs) =
     (case filter (\<lambda>v. v_type v = ''IHDR'') vs of
        [] \<Rightarrow> headerDataBytes st
      | a # as \<Rightarrow> Some (subarray (v_bytes (last (a # as))) (v_off (last (a # as)) + 8)
                         (v_off (last (a # as)) + 8 + v_len (last (a # as)))))"
proof (induction vs rule: rev_induct)
  case Nil
  then show ?case by simp
next
  case (snoc v vs)
  show ?case
    using snoc.IH
    by (simp add: replay_snoc header_step split: list.splits)
qed

lemma header_extracted:
  "headerDataBytes (extractPass bytes) =
     (case filter (\<lambda>v. v_type v = ''IHDR'') (visits bytes extractVisitor initState) of
        [] \<Rightarrow> None
      | a # as \<Rightarrow> Some (subarray bytes (v_off (last (a # as)) + 8)
                         (v_off (last (a # as)) + 8 + v_len (last (a # as)))))"
proof -
  let ?vs = "visits bytes extractVisitor initState"
  let ?hs = "filter (\<lambda>v. v_type v = ''IHDR'') ?vs"
  show ?thesis
  proof (cases ?hs)
    case Nil
    then show ?thesis
      by (simp only: extractPass_replay header_replay_eq list.case parts_init)
  next
    case (Cons a as)
    then have "last (a # as) \<in> set ?hs"
      by (metis last_in_set list.distinct(1))
    then have "last (a # as) \<in> set ?vs" by simp
    then have lb: "v_bytes (last (a # as)) = bytes" by (rule visits_bytes)
    show ?thesis
      by (simp only: extractPass_replay header_replay_eq Cons list.case lb)
  qed
qed

lemma groups_step:
  "preDataParts (snd (extractVisitor t b off len st)) =
     (if ancillary t then preDataParts st @ [subBuffer b off (12 + len)] else preDataParts st)"
  "postDataParts (snd (extractVisitor t b off len st)) =
     (if t = ''IEND'' then postDataParts st @ [subBuffer b off (12 + len)] else postDataParts st)"
  by (auto simp add: extractVisitor_def ancillary_def Let_def split: option.split)

lemma groups_replay:
  "preDataParts (replay extractVisitor st vs) =
     preDataParts st @ map (\<lambda>v. subBuffer (v_bytes v) (v_off v) (12 + v_len v))
                         (filter (\<lambda>v. ancillary (v_type v)) vs)"
  "postDataParts (replay extractVisitor st vs) =
     postDataParts st @ map (\<lambda>v. subBuffer (v_bytes v) (v_off v) (12 + v_len v))
                          (filter (\<lambda>v. v_type v = ''IEND'') vs)"
  by (induction vs rule: rev_induct) (simp_all add: replay_snoc groups_step)

lemma groups_extracted:
  "preDataParts (extractPass bytes) =
     map (\<lambda>v. subBuffer bytes (v_off v) (12 + v_len v))
         (filter (\<lambda>v. ancillary (v_type v)) (visits bytes extractVisitor initState))"
  "postDataParts (extractPass bytes) =
     map (\<lambda>v. subBuffer bytes (v_off v) (12 + v_len v))
         (filter (\<lambda>v. v_type v = ''IEND'') (visits bytes extractVisitor initState))"
  by (auto simp add: extractPass_replay groups_replay initState_def visits_bytes)

lemma view_subarray:
  "view_bytes bytes (subarray bytes (off + 8) (off + 8 + len)) = take len (drop (off + 8) bytes)"
  "view_bytes bytes (subarray bytes (off + 8 + 4) (off + 8 + len)) =
     drop 4 (take len (drop (off + 8) bytes))"
proof -
  show "view_bytes bytes (subarray bytes (off + 8) (off + 8 + len)) = take len (drop (off + 8) bytes)"
    by (auto simp add: view_bytes_def subarray_def Let_def min_def)
  show "view_bytes bytes (subarray bytes (off + 8 + 4) (off + 8 + len)) =
     drop 4 (take len (drop (off + 8) bytes))"
    by (auto simp add: view_bytes_def subarray_def Let_def min_def drop_take add.commute)
qed

lemma data_step:
  "frame st = Some f \<Longrightarrow>
     frame (snd (extractVisitor ''fdAT'' bytes off len st)) =
       Some (f\<lparr>dataParts := dataParts f @ [subarray bytes (off + 8 + 4) (off + 8 + len)]\<rparr>)"
  "frame st = Some f \<Longrightarrow>
     frame (snd (extractVisitor ''IDAT'' bytes off len st)) =
       Some (f\<lparr>dataParts := dataParts f @ [subarray bytes (off + 8) (off + 8 + len)]\<rparr>)"
  "frame st = None \<Longrightarrow>
     map_option dataParts (frame (snd (extractVisitor ''IDAT'' bytes off len st))) =
       Some [subarray bytes (off + 8) (off + 8 + len)]"
  "frame st = None \<Longrightarrow> frame (snd (extractVisitor ''fdAT'' bytes off len st)) = None"
  by (simp_all add: extractVisitor_def)

lemma synthFrame_buffer:
  assumes "8 \<le> snd h" "fst h + 8 \<le> length buf"
  shows "snd (synthFrame (Some h) pre post buf fr) =
     take (fst h) buf @ makeDWordArray (Frame.width fr) @ makeDWordArray (Frame.height fr) @
     drop (fst h + 8) buf"
proof -
  let ?x = "take 8 (drop (fst h) buf)"
  have x: "length ?x = 8" using assms(2) by simp
  have self: "patched buf h ?x = buf" by (rule patched_self[OF assms(2)])
  have s1: "view_set buf h (makeDWordArray (Frame.width fr)) 0 =
           Inr (patched buf h (makeDWordArray (Frame.width fr) @ drop 4 ?x))"
    using view_set_patched(1)[OF x assms(2,1), of "Frame.width fr"] by (simp only: self)
  have s2: "view_set (patched buf h (makeDWordArray (Frame.width fr) @ drop 4 ?x)) h
              (makeDWordArray (Frame.height fr)) 4 =
            Inr (patched buf h (makeDWordArray (Frame.width fr) @ makeDWordArray (Frame.height fr)))"
    by (rule view_set_patched(2)[OF x assms(2,1)])
  have "snd (synthFrame (Some h) pre post buf fr) =
     patched buf h (makeDWordArray (Frame.width fr) @ makeDWordArray (Frame.height fr))"
    unfolding synthFrame_def
    by (simp only: option.case s1 s2 sum.case snd_conv)
  then show ?thesis by (simp add: patched_def)
qed

lemma header_offset:
  assumes hdr: "headerDataBytes (extractPass bytes) = Some h" and h8: "8 \<le> snd h"
  shows "fst h = v_off (last (filter (\<lambda>v. v_type v = ''IHDR'') (visits bytes extractVisitor initState))) + 8"
proof -
  let ?hs = "filter (\<lambda>v. v_type v = ''IHDR'') (visits bytes extractVisitor initState)"
  show ?thesis
  proof (cases ?hs)
    case Nil
    with hdr show ?thesis by (simp only: header_extracted list.case) simp
  next
    case (Cons a as)
    with hdr have "h = subarray bytes (v_off (last (a # as)) + 8)
                         (v_off (last (a # as)) + 8 + v_len (last (a # as)))"
      by (simp only: header_extracted list.case) simp
    from subarray_header(1)[OF this h8] show ?thesis by (simp only: Cons)
  qed
qed

lemma default_image_header: "headerDataBytes (extractPass apng_default_image) = Some (16, 13)"
  by (simp add: header_extracted default_image_visits subarray_def default_image_fields)

lemma default_image_values:
  "readDWord apng_default_image 16 = 2"
  "readDWord apng_default_image 20 = 1"
  "readDWord apng_default_image 88 = 1"
  "readDWord apng_default_image 92 = 1"
  "readDWord apng_default_image 96 = 1"
  "readDWord apng_default_image 100 = 0"
  "readByte apng_default_image 108 = 0"
  "readByte apng_default_image 109 = 0"
  by (simp_all add: readDWord_def readByte_def byteAt_def apng_default_image_def)

lemma default_image_frames:
  "frames (extracted apng_default_image) =
     [\<lparr>Frame.width = 2, height = 1, left = 0, top = 0, delay = 100, disposeOp = 1, blendOp = 1,
        dataParts = [(61, 11)]\<rparr>,
      \<lparr>Frame.width = 1, height = 1, left = 1, top = 0, delay = 100, disposeOp = 0, blendOp = 0,
        dataParts = [(126, 10)]\<rparr>]"
  unfolding extracted_def extractPass_replay default_image_visits
  by (simp add: replay_def extractVisitor_def initState_def new_Animation_def pushFrame_def
        subarray_def default_image_fields default_image_values default_image_numPlays
        js_mul_def js_div_def to_double_small)

lemma default_image_groups:
  "preDataParts (extractPass apng_default_image) = []"
  "postDataParts (extractPass apng_default_image) = [[0, 0, 0, 0, 73, 69, 78, 68, 174, 66, 96, 130]]"
  unfolding groups_extracted default_image_visits
  by (simp_all add: ancillary_def subBuffer_def apng_default_image_def)

lemma default_image_views:
  "view_bytes apng_default_image (16, 13) = [0, 0, 0, 2, 0, 0, 0, 1, 8, 0, 0, 0, 0]"
  "view_bytes apng_default_image (126, 10) = [120, 156, 99, 248, 15, 0, 1, 1, 1, 0]"
  "take 16 apng_default_image = [137, 80, 78, 71, 13, 10, 26, 10, 0, 0, 0, 13, 73, 72, 68, 82]"
  "take 8 (drop 16 apng_default_image) = [0, 0, 0, 2, 0, 0, 0, 1]"
  by (simp_all add: view_bytes_def apng_default_image_def)

section \<open>The properties of the specification\<close>

text \<open>
  C1. For every buffer, visitor and initial visitor state, the calls that \<open>parseChunks\<close>
  makes form a chunk walk from offset 8: the first call is at offset 8; each call
  passes the 4-character tag read at offset + 4, the buffer, the chunk's offset and the
  big-endian 32-bit length declared at the offset; the next call is at offset + 12 +
  length; and the calls end exactly with the first one after which the visitor returned
  false, the tag was \<open>IEND\<close>, or the advanced offset was not below the length of the
  buffer. The offsets of the calls increase strictly, so that every chunk is visited
  once and in file order. The visitor's final state is the one the calls produce in
  this order, logging the calls does not change it, and the offset at which the loop
  stops is 8 plus the sum of \<open>12 + length\<close> over the visited chunks.
\<close>

theorem parseChunks_walk:
  "chunk_walk bytes callback 8 s (visits bytes callback s) \<and>
   sorted_wrt (<) (map v_off (visits bytes callback s)) \<and>
   parseChunks bytes callback s = replay callback s (visits bytes callback s) \<and>
   fst (parseChunks bytes (logged callback) (s, [])) = parseChunks bytes callback s \<and>
   fst (parseChunks_loop bytes callback 8 s) =
     8 + sum_list (map (\<lambda>v. 12 + v_len v) (visits bytes callback s))"
proof -
  have w: "chunk_walk bytes callback 8 s (visits bytes callback s)"
    using walk_from[of bytes callback 8 s] by (simp add: visits_eq)
  have "sorted_wrt (<) (map v_off (visits bytes callback s))"
    using chunk_walk_offsets[OF w] by simp
  moreover have "parseChunks bytes callback s = replay callback s (visits bytes callback s)"
    using walk_from[of bytes callback 8 s] by (simp add: visits_eq parseChunks_def)
  moreover have "fst (parseChunks bytes (logged callback) (s, [])) = parseChunks bytes callback s"
    by (simp add: parseChunks_def logged_loop)
  moreover have "fst (parseChunks_loop bytes callback 8 s) =
     8 + sum_list (map (\<lambda>v. 12 + v_len v) (visits bytes callback s))"
    using walk_from[of bytes callback 8 s] by (simp add: visits_eq)
  ultimately show ?thesis using w by simp
qed

theorem parseChunks_walk_witness:
  "map v_off (visits png_header_only scanVisitor False) = [8, 33] \<and>
   chunk_walk png_header_only scanVisitor 8 False (visits png_header_only scanVisitor False) \<and>
   parseChunks png_header_only scanVisitor False = False \<and>
   fst (parseChunks_loop png_header_only scanVisitor 8 False) = length png_header_only"
  using parseChunks_walk[of png_header_only scanVisitor False]
  by (simp add: header_only_scan header_only_fields replay_def scanVisitor_def)

text \<open>
  C2. When the visitor of the extraction pass is called on an \<open>fcTL\<close> chunk, with \<open>N\<close>
  and \<open>D\<close> the big-endian 16-bit fields at the offsets 20 and 22 of the payload, the
  delay of the frame it starts is the value of the JavaScript expression
  \<open>1000 * N / 100\<close> when \<open>D = 0\<close> and of \<open>1000 * N / D\<close> otherwise, replaced by 100 when
  that value is at most 10. The product \<open>1000 * N\<close> is exact, so the value is the exact
  quotient rounded to a double. The delay is positive, and the play time of the
  animation becomes the sum of the play time and the delay, rounded to a double. The
  visitor returns true.
\<close>

theorem fcTL_delay:
  "fst (extractVisitor ''fcTL'' bytes off len st) \<and>
   (let N = rat_of_nat (readWord bytes (off + 8 + 20));
        D = rat_of_nat (readWord bytes (off + 8 + 22));
        raw = (if D = 0 then js_div (js_mul 1000 N) 100 else js_div (js_mul 1000 N) D);
        d = (if raw \<le> 10 then 100 else raw);
        st' = snd (extractVisitor ''fcTL'' bytes off len st)
    in map_option delay (frame st') = Some d \<and> 0 < d \<and>
       playTime (anim st') = js_add (playTime (anim st)) d \<and>
       js_mul 1000 N = 1000 * N \<and>
       raw = to_double (if D = 0 then 1000 * N / 100 else 1000 * N / D))"
proof -
  have m: "js_mul 1000 (rat_of_nat (readWord bytes k)) = 1000 * rat_of_nat (readWord bytes k)"
    for k
    by (rule js_mul_1000[OF readWord_bound])
  show ?thesis
    by (simp add: extractVisitor_def Let_def pushFrame_def m js_div_def split: option.split)
qed

theorem fcTL_delay_witness:
  "map_option delay (frame (snd (extractVisitor ''fcTL'' fcTL_one_third 0 26 initState))) =
     Some (5864062014805333 / 17592186044416) \<and>
   playTime (anim (snd (extractVisitor ''fcTL'' fcTL_one_third 0 26 initState))) =
     5864062014805333 / 17592186044416 \<and>
   map_option delay (frame (snd (extractVisitor ''fcTL'' apng_default_image 76 26 initState))) =
     Some 100"
proof -
  have f: "readWord fcTL_one_third 28 = 1" "readWord fcTL_one_third 30 = 3"
    by (simp_all add: readWord_def byteAt_def fcTL_one_third_def)
  have j1: "js_div (js_mul 1000 1) 3 = 5864062014805333 / 17592186044416"
    by (simp add: js_div_def js_mul_def to_double_small) (simp add: double_eval)
  have j2: "js_div (js_mul 1000 1) 100 = 10"
    by (simp add: js_div_def js_mul_def to_double_small)
  have j3: "js_add 0 (5864062014805333 / 17592186044416) = 5864062014805333 / 17592186044416"
    by (simp add: js_add_def) (simp add: double_eval)
  have j4: "js_div 1000 3 = 5864062014805333 / 17592186044416" "js_div 1000 100 = 10"
    using j1 j2 by (simp_all add: js_mul_def to_double_small)
  have j5: "js_add 0 100 = 100" "to_double 10 = 10"
    by (simp_all add: js_add_def to_double_small)
  show ?thesis
    using fcTL_delay[of fcTL_one_third 0 26 initState]
          fcTL_delay[of apng_default_image 76 26 initState]
    by (simp add: f default_image_fields initState_def new_Animation_def Let_def
          j1 j2 j3 j4 j5)
qed

text \<open>
  C3. The promise is rejected with \<open>Not an animated PNG\<close> if and only if \<open>ignoreSingle\<close>
  is set and either the fast animation test finds no \<open>acTL\<close> chunk or the extraction
  pass resolves at most one frame. This holds when the executor returns and in every
  state that the image events lead to afterwards. The fast test is positive exactly
  when it visits an \<open>acTL\<close> chunk; when it is negative and \<open>ignoreSingle\<close> is set, the
  operation is rejected with an empty animation, no stream and the buffer as it was.
\<close>

theorem not_animated_rejection:
  "(settled (parseAPNG bytes ignoreSingle forceLoop) = Rejected (Message ''Not an animated PNG'') \<longleftrightarrow>
      ignoreSingle \<and> (\<not> isAnimated bytes \<or> length (frames (extracted bytes)) \<le> 1)) \<and>
   (isAnimated bytes \<longleftrightarrow> ''acTL'' \<in> set (map v_type (visits bytes scanVisitor False))) \<and>
   (ignoreSingle \<and> \<not> isAnimated bytes \<longrightarrow>
      parseAPNG bytes ignoreSingle forceLoop = rejectNotAnimated new_Animation bytes) \<and>
   (\<forall>r. reaches (parseAPNG bytes ignoreSingle forceLoop) r \<longrightarrow>
      (settled r = Rejected (Message ''Not an animated PNG'') \<longleftrightarrow>
         ignoreSingle \<and> (\<not> isAnimated bytes \<or> length (frames (extracted bytes)) \<le> 1)))"
proof -
  have "parseAPNG bytes ignoreSingle forceLoop = rejectNotAnimated new_Animation bytes"
    if "ignoreSingle \<and> \<not> isAnimated bytes"
    using that by (simp add: parseAPNG_def)
  then show ?thesis
    using settled_parse[of bytes ignoreSingle forceLoop] isAnimated_iff[of bytes]
      reaches_not_animated[of "parseAPNG bytes ignoreSingle forceLoop"]
    by blast
qed

theorem not_animated_rejection_witness:
  "\<not> isAnimated png_header_only \<and>
   reaches (parseAPNG png_header_only True False) (parseAPNG png_header_only True False) \<and>
   parseAPNG png_header_only True False = rejectNotAnimated new_Animation png_header_only \<and>
   settled (parseAPNG png_header_only True False) = Rejected (Message ''Not an animated PNG'') \<and>
   settled (parseAPNG png_header_only False False) \<noteq> Rejected (Message ''Not an animated PNG'')"
  using not_animated_rejection[of png_header_only True False]
        not_animated_rejection[of png_header_only False False]
        header_only_not_animated reaches.start[of "parseAPNG png_header_only True False"]
  by simp

text \<open>
  C4. When the operation is not rejected as not animated, the play count of the
  animation is 1 if at most one frame was resolved, 0 if more than one frame was
  resolved and \<open>forceLoop\<close> is set, and otherwise the play count of the extraction pass.
  That one is the big-endian 32-bit field at offset 4 of the payload of the last
  \<open>acTL\<close> chunk visited, and the 0 of a new animation when no \<open>acTL\<close> chunk is visited.
\<close>

theorem numPlays_policy:
  "(\<not> (ignoreSingle \<and> (\<not> isAnimated bytes \<or> length (frames (extracted bytes)) \<le> 1)) \<longrightarrow>
      numPlays (animation (parseAPNG bytes ignoreSingle forceLoop)) =
        (if length (frames (extracted bytes)) \<le> 1 then 1
         else if forceLoop then 0
         else numPlays (extracted bytes))) \<and>
   numPlays (extracted bytes) =
     (case filter (\<lambda>v. v_type v = ''acTL'') (visits bytes extractVisitor initState) of
        [] \<Rightarrow> 0
      | a # as \<Rightarrow> readDWord bytes (v_off (last (a # as)) + 8 + 4))"
  using animation_parse[of ignoreSingle bytes forceLoop] numPlays_extracted[of bytes]
  by (simp add: playPolicy_def)

theorem numPlays_policy_witness:
  "numPlays (animation (parseAPNG apng_default_image True False)) = 2 \<and>
   numPlays (animation (parseAPNG apng_default_image True True)) = 0 \<and>
   numPlays (animation (parseAPNG png_truncated False True)) = 1"
  using numPlays_policy[of True apng_default_image False]
        numPlays_policy[of True apng_default_image True]
        numPlays_policy[of False png_truncated True]
        default_image_animated
  by (simp add: extracted_frames default_image_visits truncated_chunks default_image_numPlays)

text \<open>
  C5, as stated, is false: an animated PNG whose \<open>IDAT\<close> chunk precedes its only \<open>fcTL\<close>
  chunk has one \<open>fcTL\<close> chunk and two frames.
\<close>

theorem frame_count_counterexample:
  "length (frames (extracted apng_default_image)) = 2 \<and>
   count_list (map v_type (visits apng_default_image extractVisitor initState)) ''fcTL'' = 1 \<and>
   ''fcTL'' \<in> set (map v_type (visits apng_default_image extractVisitor initState))"
  by (simp add: extracted_frames default_image_chunks)

text \<open>
  C5, amended. The number of finalized frames is the number of \<open>fcTL\<close> chunks visited,
  plus one when an \<open>IDAT\<close> chunk is visited before the first \<open>fcTL\<close> chunk (or with no
  \<open>fcTL\<close> chunk at all). In particular an input with an \<open>IDAT\<close> chunk and no \<open>fcTL\<close> chunk
  yields exactly one frame.
\<close>

theorem frame_count:
  "length (frames (extracted bytes)) =
     count_list (map v_type (visits bytes extractVisitor initState)) ''fcTL'' +
     (if ''IDAT'' \<in> set (takeWhile (\<lambda>t. t \<noteq> ''fcTL'')
                         (map v_type (visits bytes extractVisitor initState)))
      then 1 else 0) \<and>
   (''fcTL'' \<notin> set (map v_type (visits bytes extractVisitor initState)) \<and>
    ''IDAT'' \<in> set (map v_type (visits bytes extractVisitor initState)) \<longrightarrow>
      length (frames (extracted bytes)) = 1)"
proof -
  let ?tys = "map v_type (visits bytes extractVisitor initState)"
  have a: "length (frames (extracted bytes)) =
     count_list ?tys ''fcTL'' + (if ''IDAT'' \<in> set (takeWhile (\<lambda>t. t \<noteq> ''fcTL'') ?tys) then 1 else 0)"
    by (rule extracted_frames)
  have b: "length (frames (extracted bytes)) = 1" if "''fcTL'' \<notin> set ?tys" "''IDAT'' \<in> set ?tys"
  proof -
    from that(1) have tw: "takeWhile (\<lambda>t. t \<noteq> ''fcTL'') ?tys = ?tys"
      by (rule takeWhile_absent)
    from that(1) have c0: "count_list ?tys ''fcTL'' = 0"
      by (simp add: count_list_0_iff)
    show ?thesis unfolding a tw c0 using that(2) by simp
  qed
  from a b show ?thesis by blast
qed

theorem frame_count_witness:
  "''fcTL'' \<notin> set (map v_type (visits png_truncated extractVisitor initState)) \<and>
   ''IDAT'' \<in> set (map v_type (visits png_truncated extractVisitor initState)) \<and>
   length (frames (extracted png_truncated)) = 1"
  using frame_count[of png_truncated] by (simp add: truncated_chunks)

text \<open>
  C6. For a 4-character tag, \<open>makeChunkBytes\<close> throws nothing and returns the 4-byte
  big-endian length of the payload, the tag, the payload, and the 4-byte big-endian
  checksum of the tag followed by the payload. The checksum of the range of the chunk
  that starts at offset 4 and has the length of tag and payload, whatever the last
  four bytes of the chunk are, is the checksum of the tag followed by the payload.
\<close>

theorem makeChunkBytes_layout:
  assumes "length type = 4"
  shows "makeChunkBytes type dataBytes =
           Inr (makeDWordArray (length dataBytes) @ makeStringArray type @ dataBytes @
                makeDWordArray (crc32 (makeStringArray type @ dataBytes) 0
                                  (length type + length dataBytes))) \<and>
         crc32 (makeDWordArray (length dataBytes) @ makeStringArray type @ dataBytes @ crc) 4
               (length type + length dataBytes) =
           crc32 (makeStringArray type @ dataBytes) 0 (length type + length dataBytes)"
  using assms by (simp add: makeChunkBytes_value crc32_def)

theorem makeChunkBytes_layout_witness:
  "length ''IDAT'' = 4 \<and>
   makeChunkBytes ''IDAT'' [1, 2, 3] =
     Inr ([0, 0, 0, 3] @ [73, 68, 65, 84] @ [1, 2, 3] @
          makeDWordArray (crc32 [73, 68, 65, 84, 1, 2, 3] 0 7))"
proof -
  have h: "length ''IDAT'' = 4" by simp
  have e1: "length [1, 2, 3 :: byte] = 3" by simp
  have e2: "length ''IDAT'' + length [1, 2, 3 :: byte] = 7" by simp
  have e3: "makeStringArray ''IDAT'' = [73, 68, 65, 84]"
    by (simp add: makeStringArray_def charCodeAt_def)
  have e4: "makeDWordArray 3 = [0, 0, 0, 3]" by (simp add: makeDWordArray_def)
  have "makeChunkBytes ''IDAT'' [1, 2, 3] =
     Inr (makeDWordArray (length [1, 2, 3 :: byte]) @ makeStringArray ''IDAT'' @ [1, 2, 3] @
          makeDWordArray (crc32 (makeStringArray ''IDAT'' @ [1, 2, 3]) 0
             (length ''IDAT'' + length [1, 2, 3 :: byte])))"
    using makeChunkBytes_layout[OF h, of "[1, 2, 3]" "[]"] by blast
  then show ?thesis
    unfolding e1 e2 e3 e4 using h by simp
qed

text \<open>
  C7. When the header template has at least 8 bytes and the operation is not rejected
  as not animated, the executor throws nothing and hands one stream per frame to the
  images, in the order of the frames. The stream of a frame is the signature; an
  \<open>IHDR\<close> chunk whose payload is the payload of the last \<open>IHDR\<close> chunk of the input with
  its first 8 bytes replaced by the frame's width and height, with a fresh length and
  checksum; the prologue group, which holds the raw bytes of every visited chunk with
  another tag than the six the visitor knows, in file order; one chunk tagged \<open>IDAT\<close>
  with a fresh length and checksum for each data part of the frame, with the bytes the
  part had in the input; and the epilogue group, the raw bytes of the \<open>IEND\<close> chunks
  visited. The part that an \<open>fdAT\<close> chunk adds to the frame in progress is its payload
  without its first 4 bytes; the part that an \<open>IDAT\<close> chunk adds, or starts the default
  frame with, is its payload.
\<close>

theorem synthesized_streams:
  assumes "headerDataBytes (extractPass bytes) = Some h" and "8 \<le> snd h"
    and "\<not> (ignoreSingle \<and> (\<not> isAnimated bytes \<or> length (frames (extracted bytes)) \<le> 1))"
  shows "settled (parseAPNG bytes ignoreSingle forceLoop) = Pending \<and>
    streams (parseAPNG bytes ignoreSingle forceLoop) =
      map (frame_stream (view_bytes bytes h) (preDataParts (extractPass bytes))
             (postDataParts (extractPass bytes)) bytes)
          (frames (extracted bytes)) \<and>
    makeChunkBytes ''IHDR'' payload = Inr (chunk_layout ''IHDR'' payload) \<and>
    makeChunkBytes ''IDAT'' payload = Inr (chunk_layout ''IDAT'' payload) \<and>
    fst h = v_off (last (filter (\<lambda>v. v_type v = ''IHDR'') (visits bytes extractVisitor initState))) + 8 \<and>
    preDataParts (extractPass bytes) =
      map (\<lambda>v. subBuffer bytes (v_off v) (12 + v_len v))
          (filter (\<lambda>v. ancillary (v_type v)) (visits bytes extractVisitor initState)) \<and>
    postDataParts (extractPass bytes) =
      map (\<lambda>v. subBuffer bytes (v_off v) (12 + v_len v))
          (filter (\<lambda>v. v_type v = ''IEND'') (visits bytes extractVisitor initState)) \<and>
    (frame st = Some f \<longrightarrow>
       frame (snd (extractVisitor ''fdAT'' bytes off len st)) =
         Some (f\<lparr>dataParts := dataParts f @ [subarray bytes (off + 8 + 4) (off + 8 + len)]\<rparr>) \<and>
       frame (snd (extractVisitor ''IDAT'' bytes off len st)) =
         Some (f\<lparr>dataParts := dataParts f @ [subarray bytes (off + 8) (off + 8 + len)]\<rparr>)) \<and>
    (frame st = None \<longrightarrow>
       frame (snd (extractVisitor ''fdAT'' bytes off len st)) = None \<and>
       map_option dataParts (frame (snd (extractVisitor ''IDAT'' bytes off len st))) =
         Some [subarray bytes (off + 8) (off + 8 + len)]) \<and>
    view_bytes bytes (subarray bytes (off + 8 + 4) (off + 8 + len)) =
      drop 4 (take len (drop (off + 8) bytes)) \<and>
    view_bytes bytes (subarray bytes (off + 8) (off + 8 + len)) = take len (drop (off + 8) bytes)"
proof -
  note run = parse_run[OF assms, of forceLoop]
  have a: "settled (parseAPNG bytes ignoreSingle forceLoop) = Pending"
    by (simp add: run)
  have b: "streams (parseAPNG bytes ignoreSingle forceLoop) =
      map (frame_stream (view_bytes bytes h) (preDataParts (extractPass bytes))
             (postDataParts (extractPass bytes)) bytes)
          (frames (extracted bytes))"
    by (simp add: run)
  have c: "makeChunkBytes ''IHDR'' payload = Inr (chunk_layout ''IHDR'' payload)"
          "makeChunkBytes ''IDAT'' payload = Inr (chunk_layout ''IDAT'' payload)"
    by (simp_all add: makeChunkBytes_chunk_layout)
  show ?thesis
    using a b c header_offset[OF assms(1,2)] groups_extracted[of bytes]
      data_step[where st=st and bytes=bytes and off=off and len=len] view_subarray[of bytes off len]
    by simp
qed

theorem synthesized_streams_witness:
  "headerDataBytes (extractPass apng_default_image) = Some (16, 13) \<and>
   length (streams (parseAPNG apng_default_image False False)) = 2 \<and>
   streams (parseAPNG apng_default_image False False) ! 1 =
     PNG_SIGNATURE_BYTES @
     chunk_layout ''IHDR'' [0, 0, 0, 1, 0, 0, 0, 1, 8, 0, 0, 0, 0] @
     chunk_layout ''IDAT'' [120, 156, 99, 248, 15, 0, 1, 1, 1, 0] @
     [0, 0, 0, 0, 73, 69, 78, 68, 174, 66, 96, 130]"
proof -
  have h8: "8 \<le> snd (16 :: nat, 13 :: nat)" by simp
  have ok: "\<not> (False \<and> (\<not> isAnimated apng_default_image \<or>
                length (frames (extracted apng_default_image)) \<le> 1))" by simp
  have d: "makeDWordArray (Suc 0) = [0, 0, 0, 1]" by (simp add: makeDWordArray_def)
  show ?thesis
    using synthesized_streams[OF default_image_header h8 ok, of False]
    by (simp add: default_image_header default_image_frames default_image_groups
          default_image_views frame_stream_def d)
qed



text \<open>
  C9. The header template is a view of the caller's buffer. When it has at least 8
  bytes, the operation is not rejected as not animated and there is a frame, the
  executor leaves the caller's buffer with the 8 bytes at the start of the payload of
  the last \<open>IHDR\<close> chunk replaced by the width and height of the last frame, and
  otherwise as it was; for an \<open>IHDR\<close> chunk at offset 8 these are the offsets 16 to 23.
  Each round of the synthesis loop leaves there the width and height of its frame.
\<close>

theorem header_template_aliases_input:
  assumes "headerDataBytes (extractPass bytes) = Some h" and "8 \<le> snd h"
    and "\<not> (ignoreSingle \<and> (\<not> isAnimated bytes \<or> length (frames (extracted bytes)) \<le> 1))"
    and "frames (extracted bytes) \<noteq> []"
  shows "buffer (parseAPNG bytes ignoreSingle forceLoop) =
      take (fst h) bytes @
      makeDWordArray (Frame.width (last (frames (extracted bytes)))) @
      makeDWordArray (Frame.height (last (frames (extracted bytes)))) @
      drop (fst h + 8) bytes \<and>
    fst h = v_off (last (filter (\<lambda>v. v_type v = ''IHDR'') (visits bytes extractVisitor initState))) + 8 \<and>
    (fst h = 16 \<longrightarrow>
       take 8 (drop 16 (buffer (parseAPNG bytes ignoreSingle forceLoop))) =
         makeDWordArray (Frame.width (last (frames (extracted bytes)))) @
         makeDWordArray (Frame.height (last (frames (extracted bytes))))) \<and>
    (fst h + 8 \<le> length buf \<longrightarrow>
       snd (synthFrame (Some h) pre post buf fr) =
         take (fst h) buf @ makeDWordArray (Frame.width fr) @ makeDWordArray (Frame.height fr) @
         drop (fst h + 8) buf)"
proof -
  let ?y = "makeDWordArray (Frame.width (last (frames (extracted bytes)))) @
            makeDWordArray (Frame.height (last (frames (extracted bytes))))"
  have hb: "fst h + 8 \<le> length bytes"
    using header_in_buffer[OF assms(1)] assms(2) by simp
  have a: "buffer (parseAPNG bytes ignoreSingle forceLoop) = take (fst h) bytes @ ?y @ drop (fst h + 8) bytes"
    using assms(4) by (simp add: parse_run[OF assms(1,2,3), of forceLoop] patched_def)
  have b: "take 8 (drop 16 (buffer (parseAPNG bytes ignoreSingle forceLoop))) = ?y" if "fst h = 16"
    using hb that by (simp add: a)
  show ?thesis
    using a b header_offset[OF assms(1,2)] synthFrame_buffer[OF assms(2), of buf pre post fr]
    by simp
qed

theorem header_template_aliases_input_witness:
  "headerDataBytes (extractPass apng_default_image) = Some (16, 13) \<and>
   frames (extracted apng_default_image) \<noteq> [] \<and>
   take 8 (drop 16 apng_default_image) = [0, 0, 0, 2, 0, 0, 0, 1] \<and>
   take 8 (drop 16 (buffer (parseAPNG apng_default_image False False))) = [0, 0, 0, 1, 0, 0, 0, 1]"
proof -
  have h8: "8 \<le> snd (16 :: nat, 13 :: nat)" by simp
  have ok: "\<not> (False \<and> (\<not> isAnimated apng_default_image \<or>
                length (frames (extracted apng_default_image)) \<le> 1))" by simp
  have ne: "frames (extracted apng_default_image) \<noteq> []" by (simp add: default_image_frames)
  have d: "makeDWordArray (Suc 0) = [0, 0, 0, 1]" by (simp add: makeDWordArray_def)
  show ?thesis
    using header_template_aliases_input[OF default_image_header h8 ok ne, of False]
    by (simp add: default_image_header default_image_frames default_image_views d)
qed

text \<open>
  C10. The extraction pass resolves no frame exactly when it visits neither an \<open>fcTL\<close>
  nor an \<open>IDAT\<close> chunk. In that case, when \<open>ignoreSingle\<close> is not set, the executor
  returns with the promise pending, no stream handed to an image and no image event to
  come, and the promise is pending in every state reachable from there.
\<close>

theorem no_frames_never_settles:
  "(frames (extracted bytes) = [] \<longleftrightarrow>
      ''fcTL'' \<notin> set (map v_type (visits bytes extractVisitor initState)) \<and>
      ''IDAT'' \<notin> set (map v_type (visits bytes extractVisitor initState))) \<and>
   (frames (extracted bytes) = [] \<and> \<not> ignoreSingle \<longrightarrow>
      settled (parseAPNG bytes ignoreSingle forceLoop) = Pending \<and>
      streams (parseAPNG bytes ignoreSingle forceLoop) = [] \<and>
      loading (parseAPNG bytes ignoreSingle forceLoop) = 0 \<and>
      (\<forall>r. reaches (parseAPNG bytes ignoreSingle forceLoop) r \<longrightarrow> settled r = Pending))"
proof -
  have "settled r = Pending"
    if "frames (extracted bytes) = []" "\<not> ignoreSingle"
       "reaches (parseAPNG bytes ignoreSingle forceLoop) r" for r
  proof -
    have "loading (parseAPNG bytes ignoreSingle forceLoop) = 0"
      by (simp add: no_frames_run[OF that(1,2)])
    with that(3) have "r = parseAPNG bytes ignoreSingle forceLoop"
      by (rule reaches_idle)
    then show ?thesis by (simp add: no_frames_run[OF that(1,2)])
  qed
  then show ?thesis
    using no_frames_iff[of bytes] no_frames_run[of bytes ignoreSingle forceLoop]
    by auto
qed

theorem no_frames_never_settles_witness:
  "frames (extracted png_header_only) = [] \<and>
   reaches (parseAPNG png_header_only False False) (parseAPNG png_header_only False False) \<and>
   settled (parseAPNG png_header_only False False) = Pending \<and>
   loading (parseAPNG png_header_only False False) = 0"
  using no_frames_never_settles[of png_header_only False False]
        reaches.start[of "parseAPNG png_header_only False False"]
  by (simp add: header_only_chunks)

end
